theory Spec2Isabelle
  imports Main "HOL-Library.Char_ord" "HOL-Library.List_Lexorder" "HOL-Library.Sublist"
begin

section \<open>Data model\<close>

text \<open>
  A JavaScript string is modelled as a \<^typ>\<open>string\<close>, one \<^typ>\<open>char\<close> per code unit
  (code units below 256).
  A symbol of the alphabet is the string that \<^verbatim>\<open>charAt(0)\<close> or \<^verbatim>\<open>split('')\<close> yields: a
  string of length one, or the empty string when \<^verbatim>\<open>charAt(0)\<close> reads an empty word.
  The functions take an array of strings; the branch that rejects a non-array or a
  non-string element is outside the input type, the branch that rejects the empty
  array is kept. Console output is not modelled.
\<close>

type_synonym symbol = string
type_synonym vertex = string

text \<open>
  The plain object \<^verbatim>\<open>orderedCharMap\<close>: its own properties in creation order.
  \<^verbatim>\<open>Object.keys\<close> and \<^verbatim>\<open>Object.values\<close> enumerate the keys that are array indices
  first, in ascending numeric order, and the other keys in creation order. Every key of
  \<^verbatim>\<open>orderedCharMap\<close> is a result of \<^verbatim>\<open>charAt(0)\<close>, so the array indices among them are
  the ten digits.
\<close>

type_synonym 'v js_object = "(string \<times> 'v) list"

definition hasOwnProperty :: "'v js_object \<Rightarrow> string \<Rightarrow> bool" where
  "hasOwnProperty obj k = (k \<in> set (map fst obj))"

text \<open>\<^verbatim>\<open>obj[k].push(w)\<close>; the source calls it only for a key that \<^verbatim>\<open>hasOwnProperty\<close> found.\<close>

fun object_push :: "string list js_object \<Rightarrow> string \<Rightarrow> string \<Rightarrow> string list js_object" where
  "object_push [] k w = []"
| "object_push ((k', ws) # obj) k w =
     (if k' = k then (k', ws @ [w]) # obj else (k', ws) # object_push obj k w)"

definition index_keys :: "string list" where
  "index_keys = map (\<lambda>c. [c]) ''0123456789''"

definition object_entries :: "'v js_object \<Rightarrow> (string \<times> 'v) list" where
  "object_entries obj =
     concat (map (\<lambda>d. filter (\<lambda>e. fst e = d) obj) index_keys)
       @ filter (\<lambda>e. fst e \<notin> set index_keys) obj"

definition object_keys :: "'v js_object \<Rightarrow> string list" where
  "object_keys obj = map fst (object_entries obj)"

definition object_values :: "'v js_object \<Rightarrow> 'v list" where
  "object_values obj = map snd (object_entries obj)"

text \<open>\<^verbatim>\<open>[...new Set(xs)]\<close>: the elements of \<open>xs\<close> in order of first occurrence.\<close>

definition new_Set :: "'a list \<Rightarrow> 'a list" where
  "new_Set xs = foldl (\<lambda>s x. if x \<in> set s then s else s @ [x]) [] xs"

definition charAt0 :: "string \<Rightarrow> symbol" where
  "charAt0 word = take 1 word"

definition substring1 :: "string \<Rightarrow> string" where
  "substring1 word = drop 1 word"

definition split_chars :: "string \<Rightarrow> symbol list" where
  "split_chars word = map (\<lambda>c. [c]) word"

section \<open>alphabet-extractor.js: the constraint extractor\<close>

text \<open>
  \<^verbatim>\<open>getUniqueCharSet\<close>. The default \<^verbatim>\<open>sort()\<close> orders strings by code units, which is
  the lexicographic order of \<^typ>\<open>string\<close> over the order of \<^typ>\<open>char\<close>.
\<close>

definition getUniqueCharSet :: "string list \<Rightarrow> symbol list" where
  "getUniqueCharSet words =
     (if words \<noteq> [] then sort (new_Set (concat (map split_chars words))) else [])"

text \<open>The callback of \<^verbatim>\<open>words.reduce\<close> in \<^verbatim>\<open>getOrderedCharSet\<close>.\<close>

definition groupWord :: "string list js_object \<Rightarrow> string \<Rightarrow> string list js_object" where
  "groupWord orderedCharMap word =
     (let firstChar = charAt0 word in
      if \<not> hasOwnProperty orderedCharMap firstChar
      then orderedCharMap @ [(firstChar, [word])]
      else object_push orderedCharMap firstChar word)"

text \<open>
  \<^verbatim>\<open>xs.forEach((x) => { acc.push(...f(x)); })\<close> where \<open>f\<close> may fail to return: the
  calls run left to right and the first one that does not return ends the loop.
\<close>

fun forEach_push :: "('a \<Rightarrow> 'b list option) \<Rightarrow> 'a list \<Rightarrow> 'b list \<Rightarrow> 'b list option" where
  "forEach_push f [] acc = Some acc"
| "forEach_push f (x # xs) acc = Option.bind (f x) (\<lambda>r. forEach_push f xs (acc @ r))"

lemma forEach_push_mono [partial_function_mono]:
  assumes "\<And>y. mono_option (\<lambda>f. C y f)"
  shows "mono_option (\<lambda>f. forEach_push (\<lambda>y. C y f) xs acc)"
proof (induction xs arbitrary: acc)
  case Nil
  show ?case by (simp add: option.const_mono)
next
  case (Cons x xs)
  show ?case
    unfolding forEach_push.simps
    by (rule bind_mono) (rule assms, rule Cons.IH)
qed

text \<open>
  \<^verbatim>\<open>getOrderedCharSet\<close>. The recursion of the source has no bound, so the model is a
  partial function: \<open>None\<close> is a call that does not return (in JavaScript the call stack
  overflows), \<open>Some\<close> is the array returned.
\<close>

partial_function (option) getOrderedCharSet :: "string list \<Rightarrow> symbol list list option" where
  "getOrderedCharSet words =
     (if words \<noteq> [] then
        (let orderedCharMap = foldl groupWord [] words in
         Option.bind
           (forEach_push (\<lambda>words'. getOrderedCharSet (map substring1 words'))
              (filter (\<lambda>words'. length words' > 1) (object_values orderedCharMap))
              [object_keys orderedCharMap])
           (\<lambda>orderedChars. Some (filter (\<lambda>orderedChar. length orderedChar > 1) orderedChars)))
      else Some (filter (\<lambda>orderedChar. length orderedChar > 1) []))"

declare getOrderedCharSet.simps [code]

section \<open>directed-graph-tree.js: the graph\<close>

record node =
  vertexStart :: vertex
  isRoot :: bool
  vertexEnds :: "vertex list"

text \<open>
  The \<^verbatim>\<open>Map\<close> held in \<^verbatim>\<open>dtg._map\<close>, in insertion order: \<^verbatim>\<open>set\<close> on a key that is
  present keeps its position, \<^verbatim>\<open>set\<close> on a new key appends it, \<^verbatim>\<open>forEach\<close> visits the
  entries in this order.
\<close>

type_synonym dtg = "(vertex \<times> node) list"

definition new_DTG :: dtg where
  "new_DTG = []"

definition map_has :: "dtg \<Rightarrow> vertex \<Rightarrow> bool" where
  "map_has g v = (v \<in> set (map fst g))"

definition map_get :: "dtg \<Rightarrow> vertex \<Rightarrow> node option" where
  "map_get g v = map_of g v"

fun map_set :: "dtg \<Rightarrow> vertex \<Rightarrow> node \<Rightarrow> dtg" where
  "map_set [] v n = [(v, n)]"
| "map_set ((k, m) # g) v n = (if k = v then (k, n) # g else (k, m) # map_set g v n)"

definition hasVertex :: "dtg \<Rightarrow> vertex \<Rightarrow> bool" where
  "hasVertex g vertex = map_has g vertex"

definition isRootVertex :: "dtg \<Rightarrow> vertex \<Rightarrow> bool" where
  "isRootVertex g vertex =
     (if hasVertex g vertex then
        (case map_get g vertex of Some node \<Rightarrow> isRoot node | None \<Rightarrow> False)
      else False)"

definition isLeafVertex :: "dtg \<Rightarrow> vertex \<Rightarrow> bool" where
  "isLeafVertex g vertex =
     (if hasVertex g vertex then
        (case map_get g vertex of
           Some node \<Rightarrow> \<not> isRoot node \<and> length (vertexEnds node) = 0
         | None \<Rightarrow> False)
      else False)"

definition isBranchVertex :: "dtg \<Rightarrow> vertex \<Rightarrow> bool" where
  "isBranchVertex g vertex =
     (if hasVertex g vertex then
        (case map_get g vertex of
           Some node \<Rightarrow> \<not> isRoot node \<and> length (vertexEnds node) > 1
         | None \<Rightarrow> False)
      else False)"

definition isFullyConnected :: "dtg \<Rightarrow> bool" where
  "isFullyConnected g =
     (if length g \<noteq> 0 then
        foldl (\<lambda>count (k, node). if isRoot node then count + 1 else count) (0::nat) g = 1
      else False)"

definition hasEdge :: "dtg \<Rightarrow> vertex \<Rightarrow> vertex \<Rightarrow> bool" where
  "hasEdge g vStart vEnd =
     (if hasVertex g vStart \<and> hasVertex g vEnd then
        (case map_get g vStart of
           Some startingNode \<Rightarrow> list_ex (\<lambda>vertexEnd. vertexEnd = vEnd) (vertexEnds startingNode)
         | None \<Rightarrow> False)
      else False)"

definition addVertices :: "dtg \<Rightarrow> vertex list \<Rightarrow> dtg" where
  "addVertices g vertices =
     (if vertices \<noteq> [] then
        foldl (\<lambda>g' vertex. map_set g' vertex \<lparr>vertexStart = vertex, isRoot = True, vertexEnds = []\<rparr>)
          g (filter (\<lambda>vertex. \<not> hasVertex g vertex) vertices)
      else g)"

text \<open>
  \<^verbatim>\<open>createEdge\<close>. In the last branch both \<^verbatim>\<open>_map.get\<close> calls follow a successful
  \<^verbatim>\<open>hasVertex\<close>, and the two nodes are different objects because the two keys differ.
\<close>

definition createEdge :: "dtg \<Rightarrow> vertex \<Rightarrow> vertex \<Rightarrow> dtg" where
  "createEdge g vStart vEnd =
     (if vStart = vEnd then g
      else if \<not> hasVertex g vStart then g
      else if \<not> hasVertex g vEnd then g
      else if hasEdge g vStart vEnd then g
      else
        (case (map_get g vStart, map_get g vEnd) of
           (Some startingNode, Some endingNode) \<Rightarrow>
             map_set
               (map_set g vStart (startingNode\<lparr>vertexEnds := vertexEnds startingNode @ [vEnd]\<rparr>))
               vEnd (endingNode\<lparr>isRoot := False\<rparr>)
         | _ \<Rightarrow> g))"

text \<open>The \<^verbatim>\<open>forEach\<close> of \<^verbatim>\<open>createDaisyChainEdges\<close> from index 1 on; \<open>vStart\<close> is the previous element.\<close>

fun daisyChain :: "dtg \<Rightarrow> vertex \<Rightarrow> vertex list \<Rightarrow> dtg" where
  "daisyChain g vStart [] = g"
| "daisyChain g vStart (vEnd # rest) = daisyChain (createEdge g vStart vEnd) vEnd rest"

definition createDaisyChainEdges :: "dtg \<Rightarrow> vertex list \<Rightarrow> dtg" where
  "createDaisyChainEdges g vertices =
     (case vertices of [] \<Rightarrow> g | vertex # rest \<Rightarrow> daisyChain g vertex rest)"

subsection \<open>Path enumeration\<close>

text \<open>
  \<^verbatim>\<open>_traverse\<close> pushes onto the array \<^verbatim>\<open>visitedVertices\<close> it was given and hands the
  same array to \<^verbatim>\<open>collect\<close>, which stores the reference in \<^verbatim>\<open>paths\<close>; an array that
  was collected can be pushed onto afterwards. The model therefore keeps a store of
  arrays: a reference is a number, \<open>arrays\<close> maps a reference to the array's elements,
  \<open>fresh\<close> is the next unused reference, and \<open>paths\<close> is the array of collected
  references.
\<close>

datatype error = TypeError

record tstate =
  arrays :: "nat \<Rightarrow> vertex list"
  fresh :: nat
  paths :: "nat list"

definition array_push :: "nat \<Rightarrow> vertex \<Rightarrow> tstate \<Rightarrow> tstate" where
  "array_push r v s = s\<lparr>arrays := (arrays s)(r := arrays s r @ [v])\<rparr>"

definition array_new :: "vertex list \<Rightarrow> tstate \<Rightarrow> nat \<times> tstate" where
  "array_new xs s = (fresh s, s\<lparr>arrays := (arrays s)(fresh s := xs), fresh := Suc (fresh s)\<rparr>)"

definition collect :: "nat \<Rightarrow> tstate \<Rightarrow> tstate" where
  "collect r s = s\<lparr>paths := paths s @ [r]\<rparr>"

text \<open>
  \<^verbatim>\<open>_traverse(startingNode, visitedVertices, collect)\<close>. The node is an option because
  \<^verbatim>\<open>_map.get\<close> can return \<^verbatim>\<open>undefined\<close>, and reading \<^verbatim>\<open>startingNode.vertexStart\<close> of
  \<^verbatim>\<open>undefined\<close> throws a TypeError. In the last branch of the source
  \<^verbatim>\<open>startingNode.vertexEnds[0]\<close> is \<^verbatim>\<open>undefined\<close> when the node has no outgoing edge:
  \<^verbatim>\<open>includes(undefined)\<close> is false on an array of strings, \<^verbatim>\<open>_map.get(undefined)\<close> is
  \<^verbatim>\<open>undefined\<close>, and the recursive call throws; this is the case \<open>[]\<close> below.
  \<open>traverse_forEach\<close> is the \<^verbatim>\<open>vertexEnds.forEach\<close> of the branch case.
\<close>

function traverse :: "dtg \<Rightarrow> node option \<Rightarrow> nat \<Rightarrow> tstate \<Rightarrow> error + tstate"
  and traverse_forEach :: "dtg \<Rightarrow> nat \<Rightarrow> vertex list \<Rightarrow> tstate \<Rightarrow> error + tstate"
where
  "traverse g None visitedVertices s = Inl TypeError"
| "traverse g (Some startingNode) visitedVertices s =
     (if isLeafVertex g (vertexStart startingNode) then
        Inr (collect visitedVertices s)
      else if isBranchVertex g (vertexStart startingNode) then
        traverse_forEach g visitedVertices (vertexEnds startingNode) s
      else
        (case vertexEnds startingNode of
           [] \<Rightarrow> Inl TypeError
         | vertexEnd # _ \<Rightarrow>
             if vertexEnd \<in> set (arrays s visitedVertices) then
               Inr (collect visitedVertices (array_push visitedVertices vertexEnd s))
             else
               traverse g (map_get g vertexEnd) visitedVertices
                 (array_push visitedVertices vertexEnd s)))"
| "traverse_forEach g visitedVertices [] s = Inr s"
| "traverse_forEach g visitedVertices (vertexEnd # rest) s =
     (if vertexEnd \<in> set (arrays s visitedVertices) then
        traverse_forEach g visitedVertices rest
          (collect visitedVertices (array_push visitedVertices vertexEnd s))
      else
        (case array_new (arrays s visitedVertices @ [vertexEnd]) s of
           (copy, s') \<Rightarrow>
             (case traverse g (map_get g vertexEnd) copy s' of
                Inl e \<Rightarrow> Inl e
              | Inr s'' \<Rightarrow> traverse_forEach g visitedVertices rest s'')))"
  by pat_completeness auto

text \<open>
  Termination. A call only ever extends arrays or overwrites one with an extension of
  the caller's array: every array is afterwards what it was, or holds all the elements
  the caller's array had.
\<close>

definition grows :: "nat \<Rightarrow> tstate \<Rightarrow> tstate \<Rightarrow> bool" where
  "grows r s s' = (\<forall>q. arrays s' q = arrays s q \<or> set (arrays s r) \<subseteq> set (arrays s' q))"

lemma grows_refl: "grows r s s"
  by (simp add: grows_def)

lemma grows_collect: "grows r s (collect r' s)"
  by (simp add: grows_def collect_def)

lemma grows_push: "grows r s (array_push r v s)"
  by (auto simp: grows_def array_push_def)

lemma grows_same:
  assumes "grows r s s'"
  shows "set (arrays s r) \<subseteq> set (arrays s' r)"
proof -
  from assms have "arrays s' r = arrays s r \<or> set (arrays s r) \<subseteq> set (arrays s' r)"
    unfolding grows_def by blast
  then show ?thesis by auto
qed

lemma grows_trans:
  assumes "grows r s s1" and "grows r s1 s2"
  shows "grows r s s2"
  unfolding grows_def
proof (intro allI)
  fix q
  from assms(1) have r: "set (arrays s r) \<subseteq> set (arrays s1 r)"
    by (rule grows_same)
  from assms(1) have a: "arrays s1 q = arrays s q \<or> set (arrays s r) \<subseteq> set (arrays s1 q)"
    unfolding grows_def by blast
  from assms(2) have b: "arrays s2 q = arrays s1 q \<or> set (arrays s1 r) \<subseteq> set (arrays s2 q)"
    unfolding grows_def by blast
  from a b r show "arrays s2 q = arrays s q \<or> set (arrays s r) \<subseteq> set (arrays s2 q)"
    by (metis subset_trans)
qed

lemma grows_copy:
  assumes "array_new (arrays s r @ [v]) s = (c, s1)" and "grows c s1 s2"
  shows "grows r s s2"
  unfolding grows_def
proof (intro allI)
  fix q
  from assms(1) have c: "c = fresh s" and s1: "arrays s1 = (arrays s)(fresh s := arrays s r @ [v])"
    by (auto simp: array_new_def)
  from assms(2) have "arrays s2 q = arrays s1 q \<or> set (arrays s1 c) \<subseteq> set (arrays s2 q)"
    by (simp add: grows_def)
  then show "arrays s2 q = arrays s q \<or> set (arrays s r) \<subseteq> set (arrays s2 q)"
    using c s1 by (cases "q = fresh s") auto
qed

lemma traverse_grows:
  "traverse_traverse_forEach_dom (Inl (g, n, r, s)) \<Longrightarrow>
     traverse g n r s = Inr s' \<Longrightarrow> grows r s s'"
  "traverse_traverse_forEach_dom (Inr (g, r, cs, s)) \<Longrightarrow>
     traverse_forEach g r cs s = Inr s' \<Longrightarrow> grows r s s'"
proof (induction g n r s and g r cs s arbitrary: s' and s' rule: traverse_traverse_forEach.pinduct)
  case (1 g visitedVertices s)
  then show ?case by (simp add: traverse.psimps)
next
  case (2 g startingNode visitedVertices s)
  show ?case
  proof (cases "isLeafVertex g (vertexStart startingNode)")
    case True
    with 2(1,4) show ?thesis by (auto simp: traverse.psimps grows_collect)
  next
    case leaf: False
    show ?thesis
    proof (cases "isBranchVertex g (vertexStart startingNode)")
      case True
      with leaf 2(1,4) 2(2) show ?thesis by (simp add: traverse.psimps)
    next
      case branch: False
      show ?thesis
      proof (cases "vertexEnds startingNode")
        case Nil
        with leaf branch 2(1,4) show ?thesis by (simp add: traverse.psimps)
      next
        case (Cons vertexEnd rest)
        show ?thesis
        proof (cases "vertexEnd \<in> set (arrays s visitedVertices)")
          case True
          with leaf branch Cons 2(1,4)
          have "s' = collect visitedVertices (array_push visitedVertices vertexEnd s)"
            by (simp add: traverse.psimps)
          then show ?thesis
            using grows_trans [OF grows_push grows_collect] by simp
        next
          case False
          with leaf branch Cons 2(1,4)
          have "traverse g (map_get g vertexEnd) visitedVertices
                  (array_push visitedVertices vertexEnd s) = Inr s'"
            by (simp add: traverse.psimps)
          from 2(3) [OF leaf branch Cons False this]
          show ?thesis by (rule grows_trans [OF grows_push])
        qed
      qed
    qed
  qed
next
  case (3 g visitedVertices s)
  then show ?case by (simp add: traverse_forEach.psimps grows_refl)
next
  case (4 g visitedVertices vertexEnd rest s)
  show ?case
  proof (cases "vertexEnd \<in> set (arrays s visitedVertices)")
    case True
    with 4(1,5)
    have "traverse_forEach g visitedVertices rest
            (collect visitedVertices (array_push visitedVertices vertexEnd s)) = Inr s'"
      by (simp add: traverse_forEach.psimps)
    from 4(2) [OF True this]
    show ?thesis by (rule grows_trans [OF grows_trans [OF grows_push grows_collect]])
  next
    case False
    obtain c s1 where new: "array_new (arrays s visitedVertices @ [vertexEnd]) s = (c, s1)"
      by (cases "array_new (arrays s visitedVertices @ [vertexEnd]) s")
    with False 4(1,5) obtain s2 where
      t: "traverse g (map_get g vertexEnd) c s1 = Inr s2" and
      f: "traverse_forEach g visitedVertices rest s2 = Inr s'"
      by (auto simp: traverse_forEach.psimps split: sum.splits)
    from 4(3) [OF False new [symmetric] t] have "grows c s1 s2" .
    with new have "grows visitedVertices s s2" by (rule grows_copy)
    moreover from 4(4) [OF False new [symmetric] t f] have "grows visitedVertices s2 s'" .
    ultimately show ?thesis by (rule grows_trans)
  qed
qed

text \<open>The number of vertices of the graph that are not in an array.\<close>

definition unvisited :: "dtg \<Rightarrow> vertex list \<Rightarrow> nat" where
  "unvisited g visited = card (set (map fst g) - set visited)"

lemma unvisited_mono: "set xs \<subseteq> set ys \<Longrightarrow> unvisited g ys \<le> unvisited g xs"
  unfolding unvisited_def by (rule card_mono) auto

lemma unvisited_less:
  assumes "map_get g v = Some n" and v: "v \<notin> set xs"
  shows "unvisited g (xs @ [v]) < unvisited g xs"
proof -
  from assms(1) have "(v, n) \<in> set g" by (simp add: map_get_def map_of_SomeD)
  then have "v \<in> set (map fst g)" by force
  with v have in_diff: "v \<in> set (map fst g) - set xs" by simp
  have eq: "set (map fst g) - set (xs @ [v]) = (set (map fst g) - set xs) - {v}" by auto
  have "card ((set (map fst g) - set xs) - {v}) < card (set (map fst g) - set xs)"
    by (rule card_Diff1_less) (use in_diff in auto)
  then show ?thesis unfolding unvisited_def eq .
qed

fun traverse_measure ::
  "dtg \<times> node option \<times> nat \<times> tstate + dtg \<times> nat \<times> vertex list \<times> tstate \<Rightarrow> nat \<times> nat" where
  "traverse_measure (Inl (g, None, r, s)) = (0, 0)"
| "traverse_measure (Inl (g, Some n, r, s)) =
     (Suc (unvisited g (arrays s r)), Suc (length (vertexEnds n)))"
| "traverse_measure (Inr (g, r, cs, s)) = (Suc (unvisited g (arrays s r)), length cs)"

termination traverse
proof (relation "inv_image (less_than <*lex*> less_than) traverse_measure", goal_cases)
  case 1
  show ?case by auto
next
  case (2 g startingNode visitedVertices s)
  then show ?case by simp
next
  case (3 g startingNode visitedVertices s x21 x22)
  then show ?case
    by (cases "map_get g x21") (auto simp: array_push_def dest: unvisited_less)
next
  case (4 g visitedVertices vertexEnd rest s)
  have "unvisited g (arrays s visitedVertices @ [vertexEnd]) \<le> unvisited g (arrays s visitedVertices)"
    by (rule unvisited_mono) auto
  then show ?case by (auto simp: collect_def array_push_def)
next
  case (5 g visitedVertices vertexEnd rest s x y)
  then show ?case
    by (cases "map_get g vertexEnd") (auto simp: array_new_def dest: unvisited_less)
next
  case (6 g visitedVertices vertexEnd rest s x y b)
  from 6(2) [symmetric] 6(3,4) have "grows visitedVertices s b"
    by (auto intro: grows_copy traverse_grows(1))
  then have "unvisited g (arrays b visitedVertices) \<le> unvisited g (arrays s visitedVertices)"
    by (intro unvisited_mono grows_same)
  then show ?case by auto
qed

text \<open>
  The comparator of \<^verbatim>\<open>paths.sort\<close> never returns 0, so ECMAScript leaves the resulting
  order to the implementation. The model is the insertion sort that V8 runs on short
  arrays: an element goes before the first element the comparator puts it in front of.
\<close>

definition comparePaths :: "vertex list \<Rightarrow> vertex list \<Rightarrow> int" where
  "comparePaths pathA pathB = (if length pathA < length pathB then - 1 else 1)"

fun insertPath :: "vertex list \<Rightarrow> vertex list list \<Rightarrow> vertex list list" where
  "insertPath p [] = [p]"
| "insertPath p (q # qs) = (if comparePaths p q < 0 then p # q # qs else q # insertPath p qs)"

definition sortPaths :: "vertex list list \<Rightarrow> vertex list list" where
  "sortPaths ps = foldl (\<lambda>sorted p. insertPath p sorted) [] ps"

text \<open>The \<^verbatim>\<open>_map.forEach\<close> of \<^verbatim>\<open>getPaths\<close>: one traversal per root, in map order.\<close>

fun getPaths_forEach :: "dtg \<Rightarrow> (vertex \<times> node) list \<Rightarrow> tstate \<Rightarrow> error + tstate" where
  "getPaths_forEach g [] s = Inr s"
| "getPaths_forEach g ((k, rootNode) # rest) s =
     (if isRoot rootNode then
        (case array_new [vertexStart rootNode] s of
           (visitedVertices, s') \<Rightarrow>
             (case traverse g (Some rootNode) visitedVertices s' of
                Inl e \<Rightarrow> Inl e
              | Inr s'' \<Rightarrow> getPaths_forEach g rest s''))
      else getPaths_forEach g rest s)"

definition init_tstate :: tstate where
  "init_tstate = \<lparr>arrays = (\<lambda>_. []), fresh = 0, paths = []\<rparr>"

text \<open>\<^verbatim>\<open>getPaths\<close> returns the collected arrays, read once the traversals and the sort are done.\<close>

definition getPaths :: "dtg \<Rightarrow> error + vertex list list" where
  "getPaths g =
     (if length g \<noteq> 0 then
        (case getPaths_forEach g g init_tstate of
           Inl e \<Rightarrow> Inl e
         | Inr s \<Rightarrow> Inr (sortPaths (map (arrays s) (paths s))))
      else Inr [])"

definition getLoopCount :: "dtg \<Rightarrow> error + nat" where
  "getLoopCount g =
     (case getPaths g of
        Inl e \<Rightarrow> Inl e
      | Inr ps \<Rightarrow>
          Inr (foldl (\<lambda>count visitedVertices.
                  if length (new_Set visitedVertices) \<noteq> length visitedVertices
                  then count + 1 else count) 0 ps))"

section \<open>alphabet-extractor.js: the orchestrator\<close>

text \<open>A value that is an array or \<^verbatim>\<open>undefined\<close>: \<^verbatim>\<open>pop()\<close> of an empty array is \<^verbatim>\<open>undefined\<close>.\<close>

datatype 'a js_value = Undefined | Array "'a list"

definition array_pop :: "'a list list \<Rightarrow> 'a js_value" where
  "array_pop xs = (case xs of [] \<Rightarrow> Undefined | _ \<Rightarrow> Array (last xs))"

definition buildGraph :: "symbol list \<Rightarrow> symbol list list \<Rightarrow> dtg" where
  "buildGraph uniqueChars orderedChars =
     foldl createDaisyChainEdges (addVertices new_DTG uniqueChars) orderedChars"

text \<open>
  \<^verbatim>\<open>extractAlphabetChars\<close>. \<open>None\<close>: the call to \<^verbatim>\<open>getOrderedCharSet\<close> does not return.
  \<open>Some (Inl e)\<close>: the exception \<open>e\<close> leaves the function. \<open>Some (Inr v)\<close>: the value
  returned. The second disjunct of the last condition spreads \<^verbatim>\<open>alphabetChars\<close>, which
  throws a TypeError on \<^verbatim>\<open>undefined\<close>; it is evaluated only when \<^verbatim>\<open>isFullyConnected()\<close>
  holds.
\<close>

definition extractAlphabetChars :: "string list \<Rightarrow> (error + symbol js_value) option" where
  "extractAlphabetChars words =
     (if words \<noteq> [] then
        (let uniqueChars = getUniqueCharSet words in
         case getOrderedCharSet words of
           None \<Rightarrow> None
         | Some orderedChars \<Rightarrow>
             Some
               (let g = buildGraph uniqueChars orderedChars in
                case getPaths g of
                  Inl e \<Rightarrow> Inl e
                | Inr ps \<Rightarrow>
                    (let alphabetChars = array_pop ps in
                     case getLoopCount g of
                       Inl e \<Rightarrow> Inl e
                     | Inr loopCount \<Rightarrow>
                         if \<not> isFullyConnected g then Inr alphabetChars
                         else (case alphabetChars of
                                 Undefined \<Rightarrow> Inl TypeError
                               | Array cs \<Rightarrow> Inr alphabetChars))))
      else Some (Inr (Array [])))"

section \<open>Sequences of graph operations\<close>

datatype dtg_op =
  AddVertices "vertex list"
| CreateEdge vertex vertex
| CreateDaisyChainEdges "vertex list"

fun apply_op :: "dtg \<Rightarrow> dtg_op \<Rightarrow> dtg" where
  "apply_op g (AddVertices vertices) = addVertices g vertices"
| "apply_op g (CreateEdge vStart vEnd) = createEdge g vStart vEnd"
| "apply_op g (CreateDaisyChainEdges vertices) = createDaisyChainEdges g vertices"

definition run :: "dtg_op list \<Rightarrow> dtg \<Rightarrow> dtg" where
  "run ops g = foldl apply_op g ops"

section \<open>Auxiliary predicates\<close>

text \<open>Every property of the object holds the words seen so far that start with its key.\<close>

definition grouped :: "string list js_object \<Rightarrow> string list \<Rightarrow> bool" where
  "grouped obj ws =
     (distinct (map fst obj) \<and> fst ` set obj = charAt0 ` set ws \<and>
      (\<forall>k b. (k, b) \<in> set obj \<longrightarrow> b = filter (\<lambda>w. charAt0 w = k) ws))"

text \<open>A graph extends another: every vertex is kept, with at least its edges, and is a root only if it was.\<close>

definition extends :: "dtg \<Rightarrow> dtg \<Rightarrow> bool" where
  "extends g g' =
     (\<forall>v n. map_get g v = Some n \<longrightarrow>
        (\<exists>n'. map_get g' v = Some n' \<and> set (vertexEnds n) \<subseteq> set (vertexEnds n') \<and>
           (isRoot n' \<longrightarrow> isRoot n)))"

text \<open>No vertex has an edge to itself.\<close>

definition loop_free :: "dtg \<Rightarrow> bool" where
  "loop_free g = (\<forall>v n. map_get g v = Some n \<longrightarrow> v \<notin> set (vertexEnds n))"

text \<open>
  Every node is stored under its own vertex, and every target of an edge is a vertex of
  the graph that is not a root.
\<close>

definition well_formed :: "dtg \<Rightarrow> bool" where
  "well_formed g =
     (\<forall>v n. map_get g v = Some n \<longrightarrow>
        vertexStart n = v \<and>
        (\<forall>w \<in> set (vertexEnds n). \<exists>m. map_get g w = Some m \<and> \<not> isRoot m))"

section \<open>Properties of the constraint extractor\<close>

lemma getOrderedCharSet_length:
  assumes "getOrderedCharSet words = Some orderedChars" and "orderedChar \<in> set orderedChars"
  shows "2 \<le> length orderedChar"
  using assms
  by (subst (asm) getOrderedCharSet.simps) (auto simp: Let_def split: if_splits bind_splits)

subsection \<open>Grouping\<close>

lemma keys_object_push: "map fst (object_push obj k w) = map fst obj"
  by (induction obj k w rule: object_push.induct) auto

lemma keys_object_push_set: "fst ` set (object_push obj k w) = fst ` set obj"
  using keys_object_push [of obj k w] by (metis set_map)

lemma keys_groupWord:
  "fst ` set (groupWord obj w) = insert (charAt0 w) (fst ` set obj)"
proof (cases "hasOwnProperty obj (charAt0 w)")
  case True
  then have "groupWord obj w = object_push obj (charAt0 w) w"
    by (simp add: groupWord_def Let_def)
  moreover from True have "charAt0 w \<in> fst ` set obj" by (simp add: hasOwnProperty_def)
  ultimately show ?thesis by (auto simp: keys_object_push_set)
next
  case False
  then have "groupWord obj w = obj @ [(charAt0 w, [w])]"
    by (simp add: groupWord_def Let_def)
  then show ?thesis by simp
qed


lemma set_object_push:
  "distinct (map fst obj) \<Longrightarrow> (k', b') \<in> set (object_push obj k w) \<Longrightarrow>
   \<exists>b. (k', b) \<in> set obj \<and> b' = (if k' = k then b @ [w] else b)"
proof (induction obj k w rule: object_push.induct)
  case (1 k w)
  then show ?case by simp
next
  case (2 k0 ws obj k w)
  show ?case
  proof (cases "k0 = k")
    case True
    from 2(2) have notin: "k0 \<notin> fst ` set obj" by simp
    from 2(3) True have "(k', b') = (k, ws @ [w]) \<or> (k', b') \<in> set obj" by simp
    then show ?thesis
    proof
      assume "(k', b') = (k, ws @ [w])"
      with True show ?thesis by auto
    next
      assume in_obj: "(k', b') \<in> set obj"
      then have "k' \<in> fst ` set obj" by force
      with notin True have "k' \<noteq> k" by auto
      with in_obj show ?thesis by auto
    qed
  next
    case False
    from 2(3) False have "(k', b') = (k0, ws) \<or> (k', b') \<in> set (object_push obj k w)" by simp
    then show ?thesis
    proof
      assume "(k', b') = (k0, ws)"
      with False show ?thesis by auto
    next
      assume "(k', b') \<in> set (object_push obj k w)"
      with 2(1) [OF False] 2(2) obtain b where "(k', b) \<in> set obj"
        "b' = (if k' = k then b @ [w] else b)" by auto
      then show ?thesis by auto
    qed
  qed
qed

lemma grouped_groupWord:
  assumes "grouped obj ws"
  shows "grouped (groupWord obj w) (ws @ [w])"
proof -
  from assms have d: "distinct (map fst obj)"
    and keys: "fst ` set obj = charAt0 ` set ws"
    and buckets: "\<And>k b. (k, b) \<in> set obj \<Longrightarrow> b = filter (\<lambda>w. charAt0 w = k) ws"
    by (simp_all add: grouped_def)
  have keys': "fst ` set (groupWord obj w) = charAt0 ` set (ws @ [w])"
    by (simp add: keys_groupWord keys)
  show ?thesis
  proof (cases "hasOwnProperty obj (charAt0 w)")
    case False
    then have new: "charAt0 w \<notin> fst ` set obj" by (simp add: hasOwnProperty_def)
    then have "charAt0 w \<notin> charAt0 ` set ws" by (simp add: keys)
    then have "\<forall>w' \<in> set ws. charAt0 w' \<noteq> charAt0 w" by (metis imageI)
    then have none: "filter (\<lambda>w'. charAt0 w' = charAt0 w) ws = []"
      by (simp add: filter_empty_conv)
    have g: "groupWord obj w = obj @ [(charAt0 w, [w])]"
      using False by (simp add: groupWord_def Let_def)
    have "b = filter (\<lambda>w'. charAt0 w' = k) (ws @ [w])" if "(k, b) \<in> set (groupWord obj w)" for k b
    proof -
      from that g have "(k, b) \<in> set obj \<or> (k, b) = (charAt0 w, [w])" by auto
      then show ?thesis
      proof
        assume in_obj: "(k, b) \<in> set obj"
        then have "k \<in> fst ` set obj" by force
        with new have "charAt0 w \<noteq> k" by auto
        with buckets [OF in_obj] show ?thesis by simp
      next
        assume "(k, b) = (charAt0 w, [w])"
        with none show ?thesis by simp
      qed
    qed
    moreover have "distinct (map fst (groupWord obj w))"
      using d new unfolding g by simp
    ultimately show ?thesis using keys' unfolding grouped_def by blast
  next
    case True
    have g: "groupWord obj w = object_push obj (charAt0 w) w"
      using True by (simp add: groupWord_def Let_def)
    have "b' = filter (\<lambda>w'. charAt0 w' = k) (ws @ [w])" if "(k, b') \<in> set (groupWord obj w)" for k b'
    proof -
      from that have "(k, b') \<in> set (object_push obj (charAt0 w) w)" by (simp add: g)
      from set_object_push [OF d this] obtain b where
        "(k, b) \<in> set obj" and b': "b' = (if k = charAt0 w then b @ [w] else b)" by blast
      from buckets [OF this(1)] b' show ?thesis by auto
    qed
    moreover have "distinct (map fst (groupWord obj w))"
      using d unfolding g keys_object_push .
    ultimately show ?thesis using keys' unfolding grouped_def by blast
  qed
qed

lemma grouped_foldl:
  "grouped obj ws0 \<Longrightarrow> grouped (foldl groupWord obj ws) (ws0 @ ws)"
proof (induction ws arbitrary: obj ws0)
  case Nil
  then show ?case by simp
next
  case (Cons w ws)
  from Cons.IH [OF grouped_groupWord [OF Cons.prems, of w]]
  show ?case by simp
qed

lemma grouped_words: "grouped (foldl groupWord [] ws) ws"
  using grouped_foldl [of "[]" "[]" ws] by (simp add: grouped_def)

lemma set_object_entries: "set (object_entries obj) = set obj"
  by (auto simp: object_entries_def)




lemma bucket_in_values:
  assumes "w \<in> set ws"
  shows "filter (\<lambda>w'. charAt0 w' = charAt0 w) ws \<in> set (object_values (foldl groupWord [] ws))"
proof -
  let ?obj = "foldl groupWord [] ws"
  have g: "grouped ?obj ws" by (rule grouped_words)
  from assms have "charAt0 w \<in> charAt0 ` set ws" by (rule imageI)
  with g have "charAt0 w \<in> fst ` set ?obj" by (simp add: grouped_def)
  then obtain b where in_obj: "(charAt0 w, b) \<in> set ?obj" by force
  with g have "b = filter (\<lambda>w'. charAt0 w' = charAt0 w) ws" by (simp add: grouped_def)
  with in_obj have "(charAt0 w, filter (\<lambda>w'. charAt0 w' = charAt0 w) ws) \<in> set (object_entries ?obj)"
    by (simp add: set_object_entries)
  then have "snd (charAt0 w, filter (\<lambda>w'. charAt0 w' = charAt0 w) ws) \<in> snd ` set (object_entries ?obj)"
    by (rule imageI)
  then show ?thesis by (simp add: object_values_def)
qed






subsection \<open>When the recursion returns\<close>

lemma forEach_push_Some:
  assumes "\<And>x. x \<in> set xs \<Longrightarrow> f x \<noteq> None"
  shows "forEach_push f xs acc \<noteq> None"
  using assms
proof (induction xs arbitrary: acc)
  case Nil
  show ?case by simp
next
  case (Cons x xs)
  from Cons.prems [of x] obtain r where r: "f x = Some r" by auto
  from Cons.IH [of "acc @ r"] Cons.prems have "forEach_push f xs (acc @ r) \<noteq> None" by simp
  with r show ?case by simp
qed

lemma forEach_push_None:
  assumes "x \<in> set xs" and "f x = None"
  shows "forEach_push f xs acc = None"
  using assms
proof (induction xs arbitrary: acc)
  case Nil
  then show ?case by simp
next
  case (Cons y ys)
  show ?case
  proof (cases "f y")
    case None
    then show ?thesis by simp
  next
    case (Some r)
    with Cons.prems have "x \<in> set ys" by auto
    from Cons.IH [OF this Cons.prems(2)] Some show ?thesis by simp
  qed
qed

lemma value_is_bucket:
  assumes "b \<in> set (object_values (foldl groupWord [] ws))"
  shows "\<exists>k. k \<in> charAt0 ` set ws \<and> b = filter (\<lambda>w. charAt0 w = k) ws"
proof -
  let ?obj = "foldl groupWord [] ws"
  have g: "grouped ?obj ws" by (rule grouped_words)
  from assms obtain k where in_obj: "(k, b) \<in> set ?obj"
    by (auto simp: object_values_def set_object_entries)
  then have "k \<in> fst ` set ?obj" by force
  with g have "k \<in> charAt0 ` set ws" by (simp add: grouped_def)
  moreover from g in_obj have "b = filter (\<lambda>w. charAt0 w = k) ws" by (simp add: grouped_def)
  ultimately show ?thesis by blast
qed

lemma getOrderedCharSet_None_iff:
  assumes "ws \<noteq> []"
  shows "getOrderedCharSet ws = None \<longleftrightarrow>
    (\<exists>b \<in> set (object_values (foldl groupWord [] ws)).
       1 < length b \<and> getOrderedCharSet (map substring1 b) = None)"
proof
  assume n: "getOrderedCharSet ws = None"
  show "\<exists>b \<in> set (object_values (foldl groupWord [] ws)).
       1 < length b \<and> getOrderedCharSet (map substring1 b) = None"
  proof (rule ccontr)
    assume "\<not> ?thesis"
    then have "\<And>b. b \<in> set (filter (\<lambda>words'. length words' > 1) (object_values (foldl groupWord [] ws)))
      \<Longrightarrow> getOrderedCharSet (map substring1 b) \<noteq> None" by auto
    from forEach_push_Some [of _ "\<lambda>words'. getOrderedCharSet (map substring1 words')", OF this]
    have "forEach_push (\<lambda>words'. getOrderedCharSet (map substring1 words'))
              (filter (\<lambda>words'. length words' > 1) (object_values (foldl groupWord [] ws)))
              [object_keys (foldl groupWord [] ws)] \<noteq> None" .
    with assms have "getOrderedCharSet ws \<noteq> None"
      by (subst getOrderedCharSet.simps) (auto simp: Let_def)
    with n show False by simp
  qed
next
  assume "\<exists>b \<in> set (object_values (foldl groupWord [] ws)).
       1 < length b \<and> getOrderedCharSet (map substring1 b) = None"
  then obtain b where "b \<in> set (filter (\<lambda>words'. length words' > 1) (object_values (foldl groupWord [] ws)))"
    and "getOrderedCharSet (map substring1 b) = None" by auto
  from forEach_push_None [of b _ "\<lambda>words'. getOrderedCharSet (map substring1 words')", OF this]
  have "forEach_push (\<lambda>words'. getOrderedCharSet (map substring1 words'))
              (filter (\<lambda>words'. length words' > 1) (object_values (foldl groupWord [] ws)))
              [object_keys (foldl groupWord [] ws)] = None" .
  with assms show "getOrderedCharSet ws = None"
    by (subst getOrderedCharSet.simps) (simp add: Let_def)
qed

text \<open>Two or more empty words: the call does not return.\<close>

lemma bucket_of_empty_words:
  assumes "2 \<le> n"
  shows "object_values (foldl groupWord [] (replicate n [])) = [replicate n []]"
proof -
  have step: "foldl groupWord [([], replicate (Suc m) [])] (replicate k [])
      = [([], replicate (Suc m + k) [])]" for m k
  proof (induction k arbitrary: m)
    case 0
    show ?case by simp
  next
    case (Suc k)
    have "groupWord [([], replicate (Suc m) [])] [] = [([], replicate (Suc (Suc m)) [])]"
      by (simp add: groupWord_def charAt0_def hasOwnProperty_def replicate_append_same)
    with Suc [of "Suc m"] show ?case by simp
  qed
  from assms obtain k where n: "n = Suc k" by (cases n) auto
  have "groupWord [] [] = [([], replicate (Suc 0) [])]"
    by (simp add: groupWord_def charAt0_def hasOwnProperty_def)
  with step [of 0 k] have "foldl groupWord [] (replicate n []) = [([], replicate n [])]"
    by (simp add: n)
  then show ?thesis
    by (simp add: object_values_def object_entries_def index_keys_def)
qed

lemma getOrderedCharSet_empty_words_general:
  assumes "2 \<le> n"
  shows "getOrderedCharSet (replicate n []) = None"
proof -
  have "\<not> (\<exists>n. 2 \<le> n \<and> ws = replicate n [])" if "getOrderedCharSet ws = Some cs" for ws cs
  proof (rule getOrderedCharSet.raw_induct
      [where P = "\<lambda>ws cs. \<not> (\<exists>n. 2 \<le> n \<and> ws = replicate n [])" and y = cs, OF _ that], goal_cases)
    case (1 f ws cs)
    show ?case
    proof
      assume "\<exists>n. 2 \<le> n \<and> ws = replicate n []"
      then obtain n where n: "2 \<le> n" and ws: "ws = replicate n []" by blast
      from n have ne: "replicate n ([] :: string) \<noteq> []" by auto
      from n have len: "1 < length (replicate n ([] :: string))" by simp
      have m: "map substring1 (replicate n []) = replicate n []"
        by (simp add: substring1_def)
      from 1(2) have "\<exists>r. f (replicate n []) = Some r"
        unfolding ws Let_def bucket_of_empty_words [OF n]
        using ne len by (simp add: substring1_def split: bind_splits)
      with 1(1) n show False by blast
    qed
  qed
  with assms show ?thesis by (cases "getOrderedCharSet (replicate n [])") auto
qed

lemma charAt0_empty_iff: "charAt0 w = [] \<longleftrightarrow> w = []"
  by (cases w) (simp_all add: charAt0_def)

lemma charAt0_Cons: "charAt0 (a # p) = [a]"
  by (simp add: charAt0_def)

lemma filter_map_count:
  "length (filter (\<lambda>x. x = w) xs) \<le> length (filter (\<lambda>y. y = f w) (map f xs))"
  by (induction xs) auto

lemma getOrderedCharSet_repeated_word:
  assumes "2 \<le> length (filter (\<lambda>x. x = w) ws)"
  shows "getOrderedCharSet ws = None"
  using assms
proof (induction w arbitrary: ws)
  case Nil
  let ?b = "filter (\<lambda>w'. charAt0 w' = charAt0 []) ws"
  from Nil have "filter (\<lambda>x. x = []) ws \<noteq> []" by auto
  then have in_ws: "[] \<in> set ws" by (auto simp: filter_empty_conv)
  then have ne: "ws \<noteq> []" by auto
  have "?b = filter (\<lambda>x. x = []) ws"
    by (simp add: charAt0_empty_iff charAt0_def)
  also have "\<dots> = replicate (length (filter (\<lambda>x. x = []) ws)) []"
    by (induction ws) auto
  finally have b: "?b = replicate (length (filter (\<lambda>x. x = []) ws)) []" .
  have "map substring1 ?b = replicate (length (filter (\<lambda>x. x = []) ws)) []"
    by (subst b) (simp add: substring1_def)
  with getOrderedCharSet_empty_words_general [OF Nil]
  have "getOrderedCharSet (map substring1 ?b) = None" by simp
  moreover from b Nil have "1 < length ?b" by simp
  moreover note bucket_in_values [OF in_ws]
  ultimately show ?case
    unfolding getOrderedCharSet_None_iff [OF ne] by blast
next
  case (Cons a p)
  let ?b = "filter (\<lambda>w'. charAt0 w' = charAt0 (a # p)) ws"
  from Cons.prems have "filter (\<lambda>x. x = a # p) ws \<noteq> []" by auto
  then have in_ws: "a # p \<in> set ws" by (auto simp: filter_empty_conv)
  then have ne: "ws \<noteq> []" by auto
  have "filter (\<lambda>x. x = a # p) ?b = filter (\<lambda>x. x = a # p) ws"
    by (induction ws) auto
  with Cons.prems have two: "2 \<le> length (filter (\<lambda>x. x = a # p) ?b)" by simp
  also have "\<dots> \<le> length ?b" by (rule length_filter_le)
  finally have len: "1 < length ?b" by simp
  from two filter_map_count [of "a # p" ?b substring1]
  have "2 \<le> length (filter (\<lambda>y. y = p) (map substring1 ?b))"
    by (simp add: substring1_def)
  from Cons.IH [OF this] have "getOrderedCharSet (map substring1 ?b) = None" .
  with len bucket_in_values [OF in_ws] show ?case
    unfolding getOrderedCharSet_None_iff [OF ne] by blast
qed

lemma not_distinct_repeated:
  assumes "\<not> distinct ws"
  shows "\<exists>w. 2 \<le> length (filter (\<lambda>x. x = w) ws)"
proof -
  from assms obtain xs ys zs y where "ws = xs @ [y] @ ys @ [y] @ zs"
    using not_distinct_decomp by blast
  then have "2 \<le> length (filter (\<lambda>x. x = y) ws)" by simp
  then show ?thesis ..
qed

lemma sum_length_filter:
  "sum_list (map length (filter P ws)) \<le> sum_list (map length (ws :: string list))"
  by (induction ws) auto

lemma sum_length_tails:
  assumes "\<And>w. w \<in> set b \<Longrightarrow> w \<noteq> []" and "b \<noteq> []"
  shows "sum_list (map length (map substring1 b)) < sum_list (map length b)"
  using assms
proof (induction b)
  case Nil
  then show ?case by simp
next
  case (Cons w b)
  from Cons.prems(1) [of w] have w: "length (substring1 w) < length w"
    by (cases w) (simp_all add: substring1_def)
  show ?case
  proof (cases "b = []")
    case True
    with w show ?thesis by simp
  next
    case False
    with Cons.IH Cons.prems(1) have "sum_list (map length (map substring1 b)) < sum_list (map length b)"
      by simp
    with w show ?thesis by simp
  qed
qed

lemma getOrderedCharSet_distinct_returns:
  assumes "distinct ws"
  shows "getOrderedCharSet ws \<noteq> None"
  using assms
proof (induction "sum_list (map length ws)" arbitrary: ws rule: less_induct)
  case less
  show ?case
  proof (cases "ws = []")
    case True
    then show ?thesis by (subst getOrderedCharSet.simps) simp
  next
    case ne: False
    have "getOrderedCharSet (map substring1 b) \<noteq> None"
      if b_in: "b \<in> set (object_values (foldl groupWord [] ws))" and len: "1 < length b" for b
    proof -
      from value_is_bucket [OF b_in] obtain k where
        b: "b = filter (\<lambda>w. charAt0 w = k) ws" by blast
      from less.prems have d: "distinct b" unfolding b by simp
      have k: "k \<noteq> []"
      proof
        assume "k = []"
        then have all_empty: "\<And>w. w \<in> set b \<Longrightarrow> w = []"
          unfolding b by (simp add: charAt0_empty_iff)
        from len obtain x b' where b': "b = x # b'" by (cases b) auto
        with len obtain y b'' where b'': "b' = y # b''" by (cases b') auto
        from d b' b'' have "x \<noteq> y" by simp
        moreover from all_empty [of x] all_empty [of y] b' b'' have "x = []" "y = []" by simp_all
        ultimately show False by simp
      qed
      have nonempty: "w \<noteq> []" if "w \<in> set b" for w
      proof
        assume "w = []"
        with that have "charAt0 [] = k" unfolding b by simp
        with k show False by (simp add: charAt0_def)
      qed
      have "inj_on substring1 (set b)"
      proof (rule inj_onI)
        fix x y assume x: "x \<in> set b" and y: "y \<in> set b" and eq: "substring1 x = substring1 y"
        from x y have "charAt0 x = charAt0 y" unfolding b by simp
        with eq have "charAt0 x @ substring1 x = charAt0 y @ substring1 y" by simp
        then show "x = y" by (simp add: charAt0_def substring1_def)
      qed
      with d have d': "distinct (map substring1 b)" by (simp add: distinct_map)
      from len have "b \<noteq> []" by auto
      from sum_length_tails [OF nonempty this]
      have "sum_list (map length (map substring1 b)) < sum_list (map length b)" by simp
      also have "\<dots> \<le> sum_list (map length ws)" unfolding b by (rule sum_length_filter)
      finally show ?thesis using d' by (rule less.hyps)
    qed
    then show ?thesis
      unfolding getOrderedCharSet_None_iff [OF ne] by blast
  qed
qed

lemma getOrderedCharSet_returns_iff_distinct:
  "getOrderedCharSet ws \<noteq> None \<longleftrightarrow> distinct ws"
proof
  assume r: "getOrderedCharSet ws \<noteq> None"
  show "distinct ws"
  proof (rule ccontr)
    assume "\<not> distinct ws"
    from not_distinct_repeated [OF this] obtain w where
      "2 \<le> length (filter (\<lambda>x. x = w) ws)" ..
    from getOrderedCharSet_repeated_word [OF this] r show False by simp
  qed
next
  assume "distinct ws"
  then show "getOrderedCharSet ws \<noteq> None" by (rule getOrderedCharSet_distinct_returns)
qed

subsection \<open>The claims about the constraint extractor\<close>

text \<open>
  Claim C3 says that \<^verbatim>\<open>getOrderedCharSet\<close> terminates on every non-empty list of
  strings, and that a group whose members are all stripped to length 0, as for the
  list \<^verbatim>\<open>["aa","aa"]\<close>, yields no further recursion and raises no error. The code does
  not return on \<^verbatim>\<open>["aa","aa"]\<close>: the group of \<open>a\<close> leads to \<^verbatim>\<open>["a","a"]\<close>, that one to
  \<^verbatim>\<open>["",""]\<close>, and the group of the empty key has two members and recurses on
  \<^verbatim>\<open>["",""]\<close> again. In general the call returns exactly when no word occurs twice
  in the list.
\<close>

theorem getOrderedCharSet_duplicate_words_diverges:
  "getOrderedCharSet [''aa'', ''aa''] = None \<and>
   (getOrderedCharSet ws \<noteq> None) = distinct ws"
proof
  have "2 \<le> length (filter (\<lambda>x. x = ''aa'') [''aa'', ''aa''])" by simp
  then show "getOrderedCharSet [''aa'', ''aa''] = None"
    by (rule getOrderedCharSet_repeated_word)
  show "(getOrderedCharSet ws \<noteq> None) = distinct ws"
    by (rule getOrderedCharSet_returns_iff_distinct)
qed

text \<open>
  Claim C4: \<^verbatim>\<open>getOrderedCharSet(["bca","aaa","acb","ddb","dca"])\<close> returns exactly the
  chains \<^verbatim>\<open>[b,a,d]\<close>, \<^verbatim>\<open>[a,c]\<close> and \<^verbatim>\<open>[d,c]\<close>, and every chain that a call returns has
  length at least 2.
\<close>

theorem getOrderedCharSet_example_and_chain_length:
  "getOrderedCharSet [''bca'', ''aaa'', ''acb'', ''ddb'', ''dca''] =
     Some [[''b'', ''a'', ''d''], [''a'', ''c''], [''d'', ''c'']] \<and>
   (\<forall>words orderedChars. getOrderedCharSet words = Some orderedChars \<longrightarrow>
      (\<forall>orderedChar \<in> set orderedChars. 2 \<le> length orderedChar))"
proof (intro conjI allI impI ballI)
  show "getOrderedCharSet [''bca'', ''aaa'', ''acb'', ''ddb'', ''dca''] =
     Some [[''b'', ''a'', ''d''], [''a'', ''c''], [''d'', ''c'']]"
    by code_simp
qed (rule getOrderedCharSet_length)

theorem getOrderedCharSet_example_and_chain_length_witness:
  "getOrderedCharSet [''xb'', ''xa'', ''y''] = Some [[''x'', ''y''], [''b'', ''a'']] \<and>
   2 \<le> length [''x'', ''y''] \<and> 2 \<le> length [''b'', ''a'']"
proof -
  have ret: "getOrderedCharSet [''xb'', ''xa'', ''y''] = Some [[''x'', ''y''], [''b'', ''a'']]"
    by code_simp
  from getOrderedCharSet_example_and_chain_length ret
  have "\<forall>orderedChar \<in> set [[''x'', ''y''], [''b'', ''a'']]. 2 \<le> length orderedChar"
    by blast
  with ret show ?thesis by simp
qed




section \<open>Properties of the graph\<close>

subsection \<open>The map\<close>

lemma map_get_map_set: "map_get (map_set g v n) = (map_get g)(v \<mapsto> n)"
  unfolding map_get_def
  by (induction g v n rule: map_set.induct) auto

lemma keys_map_set: "fst ` set (map_set g v n) = insert v (fst ` set g)"
  by (induction g v n rule: map_set.induct) auto

lemma distinct_map_set: "distinct (map fst g) \<Longrightarrow> distinct (map fst (map_set g v n))"
  by (induction g v n rule: map_set.induct) (auto simp: keys_map_set)

lemma hasVertex_iff: "hasVertex g v \<longleftrightarrow> map_get g v \<noteq> None"
  by (simp add: hasVertex_def map_has_def map_get_def map_of_eq_None_iff)

lemma hasEdge_iff:
  "hasEdge g a b \<longleftrightarrow> (\<exists>n. map_get g a = Some n \<and> b \<in> set (vertexEnds n)) \<and> hasVertex g b"
  by (auto simp: hasEdge_def hasVertex_iff list_ex_iff split: option.splits)

lemma isRootVertex_iff: "isRootVertex g v \<longleftrightarrow> (\<exists>n. map_get g v = Some n \<and> isRoot n)"
  by (auto simp: isRootVertex_def hasVertex_iff split: option.splits)

lemma extends_refl: "extends g g"
  by (simp add: extends_def)

lemma extends_trans: "extends g g1 \<Longrightarrow> extends g1 g2 \<Longrightarrow> extends g g2"
  unfolding extends_def by (meson subset_trans)

lemma extends_createEdge: "extends g (createEdge g a b)"
  unfolding extends_def createEdge_def
  by (auto simp: map_get_map_set split: option.splits)

lemma extends_daisyChain: "extends g (daisyChain g a vs)"
proof (induction vs arbitrary: g a)
  case Nil
  show ?case by (simp add: extends_refl)
next
  case (Cons v vs)
  show ?case
    using extends_trans [OF extends_createEdge Cons.IH] by simp
qed

lemma extends_createDaisyChainEdges: "extends g (createDaisyChainEdges g vs)"
  by (simp add: createDaisyChainEdges_def extends_refl extends_daisyChain split: list.splits)

lemma map_get_fold_new:
  "v \<notin> set vs \<Longrightarrow>
   map_get (foldl (\<lambda>g' vertex. map_set g' vertex \<lparr>vertexStart = vertex, isRoot = True, vertexEnds = []\<rparr>) g vs) v
     = map_get g v"
  by (induction vs arbitrary: g) (auto simp: map_get_map_set)

lemma map_get_addVertices:
  "hasVertex g v \<Longrightarrow> map_get (addVertices g vs) v = map_get g v"
  unfolding addVertices_def by (simp add: map_get_fold_new)

lemma extends_addVertices: "extends g (addVertices g vs)"
  unfolding extends_def
proof (intro allI impI)
  fix v n assume "map_get g v = Some n"
  moreover from this have "hasVertex g v" by (simp add: hasVertex_iff)
  ultimately have "map_get (addVertices g vs) v = Some n" by (simp add: map_get_addVertices)
  then show "\<exists>n'. map_get (addVertices g vs) v = Some n' \<and> set (vertexEnds n) \<subseteq> set (vertexEnds n') \<and>
           (isRoot n' \<longrightarrow> isRoot n)" by simp
qed

lemma extends_apply_op: "extends g (apply_op g op)"
  by (cases op) (simp_all add: extends_addVertices extends_createEdge extends_createDaisyChainEdges)

lemma extends_run: "extends g (run ops g)"
  unfolding run_def
proof (induction ops arbitrary: g)
  case Nil
  show ?case by (simp add: extends_refl)
next
  case (Cons op ops)
  show ?case using extends_trans [OF extends_apply_op Cons.IH] by simp
qed

lemma extends_hasVertex: "extends g g' \<Longrightarrow> hasVertex g v \<Longrightarrow> hasVertex g' v"
  unfolding extends_def hasVertex_iff by fastforce

lemma extends_hasEdge: "extends g g' \<Longrightarrow> hasEdge g a b \<Longrightarrow> hasEdge g' a b"
  unfolding hasEdge_iff using extends_hasVertex unfolding extends_def by blast

lemma extends_not_root:
  "extends g g' \<Longrightarrow> hasVertex g v \<Longrightarrow> \<not> isRootVertex g v \<Longrightarrow> \<not> isRootVertex g' v"
  unfolding isRootVertex_iff hasVertex_iff extends_def by fastforce

subsection \<open>Keys\<close>

lemma distinct_fold_new:
  "distinct (map fst g) \<Longrightarrow>
   distinct (map fst (foldl (\<lambda>g' vertex. map_set g' vertex \<lparr>vertexStart = vertex, isRoot = True, vertexEnds = []\<rparr>) g vs))"
  by (induction vs arbitrary: g) (auto simp: distinct_map_set)

lemma distinct_addVertices: "distinct (map fst g) \<Longrightarrow> distinct (map fst (addVertices g vs))"
  by (simp add: addVertices_def distinct_fold_new)

lemma distinct_createEdge: "distinct (map fst g) \<Longrightarrow> distinct (map fst (createEdge g a b))"
  by (auto simp: createEdge_def distinct_map_set split: option.splits)

lemma distinct_daisyChain: "distinct (map fst g) \<Longrightarrow> distinct (map fst (daisyChain g a vs))"
  by (induction vs arbitrary: g a) (auto simp: distinct_createEdge)

lemma distinct_apply_op: "distinct (map fst g) \<Longrightarrow> distinct (map fst (apply_op g op))"
  by (cases op) (auto simp: distinct_addVertices distinct_createEdge distinct_daisyChain
      createDaisyChainEdges_def split: list.splits)

lemma distinct_run: "distinct (map fst g) \<Longrightarrow> distinct (map fst (run ops g))"
  unfolding run_def by (induction ops arbitrary: g) (auto simp: distinct_apply_op)

lemma distinct_count:
  "distinct (map fst g) \<Longrightarrow> v \<in> set (map fst g) \<Longrightarrow> length (filter (\<lambda>e. fst e = v) g) = 1"
  by (induction g) (auto simp: filter_empty_conv rev_image_eqI)

subsection \<open>No self loop\<close>

lemma loop_free_createEdge: "loop_free g \<Longrightarrow> loop_free (createEdge g a b)"
  unfolding loop_free_def createEdge_def
  by (auto simp: map_get_map_set split: option.splits if_splits)

lemma loop_free_daisyChain: "loop_free g \<Longrightarrow> loop_free (daisyChain g a vs)"
  by (induction vs arbitrary: g a) (auto simp: loop_free_createEdge)

lemma loop_free_fold_new:
  "loop_free g \<Longrightarrow>
   loop_free (foldl (\<lambda>g' vertex. map_set g' vertex \<lparr>vertexStart = vertex, isRoot = True, vertexEnds = []\<rparr>) g vs)"
proof (induction vs arbitrary: g)
  case Nil
  then show ?case by simp
next
  case (Cons v vs)
  have "loop_free (map_set g v \<lparr>vertexStart = v, isRoot = True, vertexEnds = []\<rparr>)"
    using Cons.prems unfolding loop_free_def by (auto simp: map_get_map_set)
  from Cons.IH [OF this] show ?case by simp
qed

lemma loop_free_apply_op: "loop_free g \<Longrightarrow> loop_free (apply_op g op)"
  by (cases op) (auto simp: addVertices_def loop_free_fold_new loop_free_createEdge loop_free_daisyChain
      createDaisyChainEdges_def split: list.splits)

lemma loop_free_run: "loop_free g \<Longrightarrow> loop_free (run ops g)"
  unfolding run_def by (induction ops arbitrary: g) (auto simp: loop_free_apply_op)

lemma loop_free_new: "loop_free new_DTG"
  by (simp add: loop_free_def new_DTG_def map_get_def)

lemma loop_free_hasEdge: "loop_free g \<Longrightarrow> \<not> hasEdge g x x"
  unfolding loop_free_def hasEdge_iff by blast

subsection \<open>Roots\<close>

lemma count_roots:
  "foldl (\<lambda>count (k, node). if isRoot node then count + 1 else count) (c::nat) g
     = c + length (filter (\<lambda>(k, node). isRoot node) g)"
  by (induction g arbitrary: c) (auto split: prod.splits)

lemma isFullyConnected_iff_length:
  "isFullyConnected g \<longleftrightarrow> length (filter (\<lambda>(k, node). isRoot node) g) = 1"
  by (auto simp: isFullyConnected_def count_roots)

lemma roots_set:
  assumes "distinct (map fst g)"
  shows "{v. isRootVertex g v} = set (map fst (filter (\<lambda>(k, node). isRoot node) g))"
proof (intro set_eqI iffI)
  fix v assume "v \<in> {v. isRootVertex g v}"
  then obtain n where "map_of g v = Some n" and r: "isRoot n"
    by (auto simp: isRootVertex_iff map_get_def)
  then have "(v, n) \<in> set g" by (simp add: map_of_SomeD)
  with r have "(v, n) \<in> set (filter (\<lambda>(k, node). isRoot node) g)" by simp
  then show "v \<in> set (map fst (filter (\<lambda>(k, node). isRoot node) g))"
    by (metis fst_conv image_eqI set_map)
next
  fix v assume "v \<in> set (map fst (filter (\<lambda>(k, node). isRoot node) g))"
  then obtain n where "(v, n) \<in> set g" and r: "isRoot n" by auto
  with assms have "map_of g v = Some n" by (simp add: map_of_is_SomeI)
  with r show "v \<in> {v. isRootVertex g v}"
    by (simp add: isRootVertex_iff map_get_def)
qed

lemma roots_card:
  assumes "distinct (map fst g)"
  shows "length (filter (\<lambda>(k, node). isRoot node) g) = card {v. isRootVertex g v}"
proof -
  have "distinct (map fst (filter (\<lambda>(k, node). isRoot node) g))"
    using assms by (rule distinct_map_filter)
  then have "card (set (map fst (filter (\<lambda>(k, node). isRoot node) g)))
      = length (map fst (filter (\<lambda>(k, node). isRoot node) g))"
    by (rule distinct_card)
  then show ?thesis
    unfolding roots_set [OF assms] by simp
qed

lemma unique_iff_singleton: "(\<exists>!v. P v) \<longleftrightarrow> (\<exists>x. {v. P v} = {x})"
proof
  assume "\<exists>!v. P v"
  then obtain x where "P x" and "\<And>y. P y \<Longrightarrow> y = x" by blast
  then have "{v. P v} = {x}" by blast
  then show "\<exists>x. {v. P v} = {x}" ..
next
  assume "\<exists>x. {v. P v} = {x}"
  then obtain x where "{v. P v} = {x}" ..
  then have "P x" and "\<And>y. P y \<Longrightarrow> y = x" by blast+
  then show "\<exists>!v. P v" by blast
qed

lemma isFullyConnected_iff_unique_root:
  assumes "distinct (map fst g)"
  shows "isFullyConnected g \<longleftrightarrow> (\<exists>!v. isRootVertex g v)"
  unfolding unique_iff_singleton isFullyConnected_iff_length roots_card [OF assms]
  by (simp add: card_1_singleton_iff)

lemma distinct_new: "distinct (map fst new_DTG)"
  by (simp add: new_DTG_def)

subsection \<open>Targets of edges\<close>

lemma well_formed_new: "well_formed new_DTG"
  by (simp add: well_formed_def new_DTG_def map_get_def)

lemma well_formed_add:
  assumes "well_formed g" and "map_get g v = None"
  shows "well_formed (map_set g v \<lparr>vertexStart = v, isRoot = True, vertexEnds = []\<rparr>)"
  unfolding well_formed_def
proof (intro allI impI)
  fix u n
  assume u: "map_get (map_set g v \<lparr>vertexStart = v, isRoot = True, vertexEnds = []\<rparr>) u = Some n"
  show "vertexStart n = u \<and>
        (\<forall>w \<in> set (vertexEnds n).
           \<exists>m. map_get (map_set g v \<lparr>vertexStart = v, isRoot = True, vertexEnds = []\<rparr>) w = Some m \<and> \<not> isRoot m)"
  proof (cases "u = v")
    case True
    with u have "n = \<lparr>vertexStart = v, isRoot = True, vertexEnds = []\<rparr>"
      by (simp add: map_get_map_set)
    with True show ?thesis by simp
  next
    case False
    with u have old: "map_get g u = Some n" by (simp add: map_get_map_set)
    with assms(1) have vs: "vertexStart n = u"
      and ends: "\<And>w. w \<in> set (vertexEnds n) \<Longrightarrow> \<exists>m. map_get g w = Some m \<and> \<not> isRoot m"
      unfolding well_formed_def by blast+
    have "\<exists>m. map_get (map_set g v \<lparr>vertexStart = v, isRoot = True, vertexEnds = []\<rparr>) w = Some m \<and> \<not> isRoot m"
      if "w \<in> set (vertexEnds n)" for w
    proof -
      from ends [OF that] obtain m where m: "map_get g w = Some m" "\<not> isRoot m" by blast
      with assms(2) have "w \<noteq> v" by auto
      with m show ?thesis by (simp add: map_get_map_set)
    qed
    with vs show ?thesis by blast
  qed
qed

lemma well_formed_fold_new:
  assumes "well_formed g"
    and "\<And>v. v \<in> set vs \<Longrightarrow>
           map_get g v = None \<or> map_get g v = Some \<lparr>vertexStart = v, isRoot = True, vertexEnds = []\<rparr>"
  shows "well_formed (foldl (\<lambda>g' vertex. map_set g' vertex \<lparr>vertexStart = vertex, isRoot = True, vertexEnds = []\<rparr>) g vs)"
  using assms
proof (induction vs arbitrary: g)
  case Nil
  then show ?case by simp
next
  case (Cons v vs)
  let ?n = "\<lparr>vertexStart = v, isRoot = True, vertexEnds = []\<rparr>"
  have wf: "well_formed (map_set g v ?n)"
  proof (cases "map_get g v")
    case None
    with Cons.prems(1) show ?thesis by (rule well_formed_add)
  next
    case (Some n)
    with Cons.prems(2) [of v] have "map_get g v = Some ?n" by simp
    then have "map_get (map_set g v ?n) = map_get g" by (auto simp: map_get_map_set)
    with Cons.prems(1) show ?thesis by (simp add: well_formed_def)
  qed
  have "map_get (map_set g v ?n) u = None \<or>
        map_get (map_set g v ?n) u = Some \<lparr>vertexStart = u, isRoot = True, vertexEnds = []\<rparr>"
    if "u \<in> set vs" for u
    using Cons.prems(2) [of u] that by (cases "u = v") (simp_all add: map_get_map_set)
  from Cons.IH [OF wf this] show ?case by simp
qed

lemma well_formed_addVertices:
  assumes "well_formed g"
  shows "well_formed (addVertices g vs)"
proof (cases "vs = []")
  case True
  with assms show ?thesis by (simp add: addVertices_def)
next
  case False
  have "map_get g v = None" if "v \<in> set (filter (\<lambda>vertex. \<not> hasVertex g vertex) vs)" for v
    using that by (simp add: hasVertex_iff)
  then have "well_formed (foldl (\<lambda>g' vertex. map_set g' vertex \<lparr>vertexStart = vertex, isRoot = True, vertexEnds = []\<rparr>) g
       (filter (\<lambda>vertex. \<not> hasVertex g vertex) vs))"
    by (intro well_formed_fold_new assms) blast
  with False show ?thesis by (simp add: addVertices_def)
qed

lemma well_formed_createEdge:
  assumes "well_formed g"
  shows "well_formed (createEdge g a b)"
proof (cases "createEdge g a b = g")
  case True
  with assms show ?thesis by simp
next
  case False
  then obtain sn en where ab: "a \<noteq> b" and sn: "map_get g a = Some sn" and en: "map_get g b = Some en"
    and g': "createEdge g a b =
      map_set (map_set g a (sn\<lparr>vertexEnds := vertexEnds sn @ [b]\<rparr>)) b (en\<lparr>isRoot := False\<rparr>)"
    by (auto simp: createEdge_def split: if_splits option.splits)
  let ?sn = "sn\<lparr>vertexEnds := vertexEnds sn @ [b]\<rparr>" and ?en = "en\<lparr>isRoot := False\<rparr>"
  have get: "map_get (createEdge g a b) = (map_get g)(a \<mapsto> ?sn, b \<mapsto> ?en)"
    unfolding g' by (simp add: map_get_map_set)
  from assms have wf: "\<And>v n. map_get g v = Some n \<Longrightarrow> vertexStart n = v"
    and ends: "\<And>v n w. map_get g v = Some n \<Longrightarrow> w \<in> set (vertexEnds n) \<Longrightarrow>
                 \<exists>m. map_get g w = Some m \<and> \<not> isRoot m"
    unfolding well_formed_def by blast+
  have target: "\<exists>m'. map_get (createEdge g a b) w = Some m' \<and> \<not> isRoot m'"
    if "map_get g w = Some m" "\<not> isRoot m" for w m
    using that sn en ab unfolding get by (cases "w = a"; cases "w = b") auto
  have new_target: "\<exists>m'. map_get (createEdge g a b) b = Some m' \<and> \<not> isRoot m'"
    unfolding get by simp
  show ?thesis
    unfolding well_formed_def
  proof (intro allI impI conjI ballI)
    fix v n assume v: "map_get (createEdge g a b) v = Some n"
    show "vertexStart n = v"
      using v wf [OF sn] wf [OF en] wf [of v n] unfolding get
      by (cases "v = a"; cases "v = b") auto
    fix w assume w: "w \<in> set (vertexEnds n)"
    show "\<exists>m. map_get (createEdge g a b) w = Some m \<and> \<not> isRoot m"
    proof (cases "v = b")
      case True
      with v have "n = ?en" unfolding get by simp
      with w have "w \<in> set (vertexEnds en)" by simp
      from ends [OF en this] show ?thesis using target by blast
    next
      case vb: False
      show ?thesis
      proof (cases "v = a")
        case True
        with v vb have "n = ?sn" unfolding get by simp
        with w have "w \<in> set (vertexEnds sn) \<or> w = b" by auto
        then show ?thesis
        proof
          assume "w \<in> set (vertexEnds sn)"
          from ends [OF sn this] show ?thesis using target by blast
        next
          assume "w = b"
          with new_target show ?thesis by simp
        qed
      next
        case False
        with v vb have "map_get g v = Some n" unfolding get by simp
        from ends [OF this w] show ?thesis using target by blast
      qed
    qed
  qed
qed

lemma well_formed_daisyChain: "well_formed g \<Longrightarrow> well_formed (daisyChain g a vs)"
  by (induction vs arbitrary: g a) (auto simp: well_formed_createEdge)

lemma well_formed_apply_op: "well_formed g \<Longrightarrow> well_formed (apply_op g op)"
  by (cases op) (auto simp: well_formed_addVertices well_formed_createEdge well_formed_daisyChain
      createDaisyChainEdges_def split: list.splits)

lemma well_formed_run: "well_formed g \<Longrightarrow> well_formed (run ops g)"
  unfolding run_def by (induction ops arbitrary: g) (auto simp: well_formed_apply_op)

subsection \<open>The claims about the graph operations\<close>

text \<open>
  Claim C5: \<^verbatim>\<open>createEdge(from, to)\<close> leaves the graph unchanged when \<open>from\<close> equals
  \<open>to\<close>, when one of the two vertices does not exist, or when the edge exists already;
  and on every graph built from the empty one by the graph operations,
  \<^verbatim>\<open>createEdge(x, x)\<close> changes nothing and \<^verbatim>\<open>hasEdge(x, x)\<close> is false afterwards.
\<close>

theorem createEdge_rejected_unchanged:
  "(vStart = vEnd \<or> \<not> hasVertex g vStart \<or> \<not> hasVertex g vEnd \<or> hasEdge g vStart vEnd
      \<longrightarrow> createEdge g vStart vEnd = g) \<and>
   createEdge (run ops new_DTG) x x = run ops new_DTG \<and>
   \<not> hasEdge (createEdge (run ops new_DTG) x x) x x"
proof (intro conjI impI)
  assume "vStart = vEnd \<or> \<not> hasVertex g vStart \<or> \<not> hasVertex g vEnd \<or> hasEdge g vStart vEnd"
  then show "createEdge g vStart vEnd = g"
    by (auto simp: createEdge_def)
next
  show same: "createEdge (run ops new_DTG) x x = run ops new_DTG"
    by (simp add: createEdge_def)
  have "loop_free (run ops new_DTG)"
    by (rule loop_free_run [OF loop_free_new])
  then show "\<not> hasEdge (createEdge (run ops new_DTG) x x) x x"
    unfolding same by (rule loop_free_hasEdge)
qed

theorem createEdge_rejected_unchanged_witness:
  "hasEdge (run [AddVertices [''a'', ''b''], CreateEdge ''a'' ''b''] new_DTG) ''a'' ''b'' \<and>
   createEdge (run [AddVertices [''a'', ''b''], CreateEdge ''a'' ''b''] new_DTG) ''a'' ''b''
     = run [AddVertices [''a'', ''b''], CreateEdge ''a'' ''b''] new_DTG \<and>
   \<not> hasVertex (run [AddVertices [''a'', ''b''], CreateEdge ''a'' ''b''] new_DTG) ''c'' \<and>
   createEdge (run [AddVertices [''a'', ''b''], CreateEdge ''a'' ''b''] new_DTG) ''a'' ''c''
     = run [AddVertices [''a'', ''b''], CreateEdge ''a'' ''b''] new_DTG"
proof -
  define g where "g = run [AddVertices [''a'', ''b''], CreateEdge ''a'' ''b''] new_DTG"
  have e: "hasEdge g ''a'' ''b''" unfolding g_def by code_simp
  have v: "\<not> hasVertex g ''c''" unfolding g_def by code_simp
  from e createEdge_rejected_unchanged [of "''a''" "''b''" g]
  have 1: "createEdge g ''a'' ''b'' = g" by blast
  from v createEdge_rejected_unchanged [of "''a''" "''c''" g]
  have 2: "createEdge g ''a'' ''c'' = g" by blast
  from e v 1 2 show ?thesis unfolding g_def by blast
qed

text \<open>
  Claim C6: across every sequence of \<^verbatim>\<open>addVertices\<close>, \<^verbatim>\<open>createEdge\<close> and
  \<^verbatim>\<open>createDaisyChainEdges\<close> calls a vertex is never removed, an edge is never removed,
  and a vertex whose \<^verbatim>\<open>isRoot\<close> flag is false keeps it false; adding a vertex that is
  present leaves its node (its edges and its flag) as it was; and a graph built from
  the empty one holds exactly one node for every vertex it has.
\<close>

theorem graph_only_grows:
  "(hasVertex g v \<longrightarrow> hasVertex (run ops g) v) \<and>
   (hasEdge g a b \<longrightarrow> hasEdge (run ops g) a b) \<and>
   (hasVertex g v \<and> \<not> isRootVertex g v \<longrightarrow> \<not> isRootVertex (run ops g) v) \<and>
   (hasVertex g v \<longrightarrow> map_get (addVertices g vs) v = map_get g v) \<and>
   (hasVertex (run ops new_DTG) v \<longrightarrow> length (filter (\<lambda>e. fst e = v) (run ops new_DTG)) = 1)"
proof (intro conjI impI)
  show "hasVertex (run ops g) v" if "hasVertex g v"
    using extends_run that by (rule extends_hasVertex)
  show "hasEdge (run ops g) a b" if "hasEdge g a b"
    using extends_run that by (rule extends_hasEdge)
  show "\<not> isRootVertex (run ops g) v" if "hasVertex g v \<and> \<not> isRootVertex g v"
    using extends_not_root [OF extends_run] that by blast
  show "map_get (addVertices g vs) v = map_get g v" if "hasVertex g v"
    using that by (rule map_get_addVertices)
  show "length (filter (\<lambda>e. fst e = v) (run ops new_DTG)) = 1" if "hasVertex (run ops new_DTG) v"
    using distinct_run [OF distinct_new] that
    by (intro distinct_count) (simp_all add: hasVertex_def map_has_def)
qed

theorem graph_only_grows_witness:
  "hasVertex (run [AddVertices [''a'', ''b'', ''c''], CreateEdge ''a'' ''b''] new_DTG) ''b'' \<and>
   hasEdge (run [AddVertices [''a'', ''b'', ''c''], CreateEdge ''a'' ''b''] new_DTG) ''a'' ''b'' \<and>
   \<not> isRootVertex (run [AddVertices [''a'', ''b'', ''c''], CreateEdge ''a'' ''b''] new_DTG) ''b'' \<and>
   hasVertex
     (run [AddVertices [''b'', ''d''], CreateDaisyChainEdges [''c'', ''d'', ''a'']]
        (run [AddVertices [''a'', ''b'', ''c''], CreateEdge ''a'' ''b''] new_DTG)) ''b'' \<and>
   hasEdge
     (run [AddVertices [''b'', ''d''], CreateDaisyChainEdges [''c'', ''d'', ''a'']]
        (run [AddVertices [''a'', ''b'', ''c''], CreateEdge ''a'' ''b''] new_DTG)) ''a'' ''b'' \<and>
   \<not> isRootVertex
     (run [AddVertices [''b'', ''d''], CreateDaisyChainEdges [''c'', ''d'', ''a'']]
        (run [AddVertices [''a'', ''b'', ''c''], CreateEdge ''a'' ''b''] new_DTG)) ''b'' \<and>
   map_get (addVertices (run [AddVertices [''a'', ''b'', ''c''], CreateEdge ''a'' ''b''] new_DTG)
              [''b'', ''d'']) ''b''
     = map_get (run [AddVertices [''a'', ''b'', ''c''], CreateEdge ''a'' ''b''] new_DTG) ''b'' \<and>
   length (filter (\<lambda>e. fst e = ''b'')
             (run [AddVertices [''a'', ''b'', ''c''], CreateEdge ''a'' ''b''] new_DTG)) = 1"
proof -
  define g where "g = run [AddVertices [''a'', ''b'', ''c''], CreateEdge ''a'' ''b''] new_DTG"
  define ops where "ops = [AddVertices [''b'', ''d''], CreateDaisyChainEdges [''c'', ''d'', ''a'']]"
  have v: "hasVertex g ''b''" unfolding g_def by code_simp
  have e: "hasEdge g ''a'' ''b''" unfolding g_def by code_simp
  have r: "\<not> isRootVertex g ''b''" unfolding g_def by code_simp
  from graph_only_grows [of g "''b''" ops "''a''" "''b''" "[''b'', ''d'']"] v e r
  have 1: "hasVertex (run ops g) ''b''" and 2: "hasEdge (run ops g) ''a'' ''b''"
    and 3: "\<not> isRootVertex (run ops g) ''b''"
    and 4: "map_get (addVertices g [''b'', ''d'']) ''b'' = map_get g ''b''"
    by blast+
  from graph_only_grows [of _ "''b''" "[AddVertices [''a'', ''b'', ''c''], CreateEdge ''a'' ''b'']"] v
  have 5: "length (filter (\<lambda>e. fst e = ''b'') g) = 1"
    unfolding g_def by blast
  from v e r 1 2 3 4 5 show ?thesis unfolding g_def ops_def by blast
qed

text \<open>
  Claim C8: \<^verbatim>\<open>isFullyConnected()\<close> is true if and only if exactly one vertex has
  \<^verbatim>\<open>isRoot == true\<close> (one root vertex on a graph built by the graph operations, one
  entry with the flag set on any map), it is false on the empty graph, false on the
  graph of the two chains \<open>a\<rightarrow>b\<rightarrow>c\<close> and \<open>d\<rightarrow>e\<rightarrow>f\<close>, and true once the edge \<open>c\<rightarrow>d\<close>
  is added.
\<close>

theorem isFullyConnected_unique_root:
  "isFullyConnected (run ops new_DTG) = (\<exists>!v. isRootVertex (run ops new_DTG) v) \<and>
   isFullyConnected g = (length (filter (\<lambda>(k, node). isRoot node) g) = 1) \<and>
   \<not> isFullyConnected new_DTG \<and>
   \<not> isFullyConnected
       (run [AddVertices [''a'', ''b'', ''c'', ''d'', ''e'', ''f''],
             CreateDaisyChainEdges [''a'', ''b'', ''c''],
             CreateDaisyChainEdges [''d'', ''e'', ''f'']] new_DTG) \<and>
   isFullyConnected
       (run [AddVertices [''a'', ''b'', ''c'', ''d'', ''e'', ''f''],
             CreateDaisyChainEdges [''a'', ''b'', ''c''],
             CreateDaisyChainEdges [''d'', ''e'', ''f''],
             CreateEdge ''c'' ''d''] new_DTG)"
proof (intro conjI)
  show "isFullyConnected (run ops new_DTG) = (\<exists>!v. isRootVertex (run ops new_DTG) v)"
    by (rule isFullyConnected_iff_unique_root) (rule distinct_run [OF distinct_new])
  show "isFullyConnected g = (length (filter (\<lambda>(k, node). isRoot node) g) = 1)"
    by (rule isFullyConnected_iff_length)
  show "\<not> isFullyConnected new_DTG"
    by (simp add: isFullyConnected_def new_DTG_def)
  show "\<not> isFullyConnected
       (run [AddVertices [''a'', ''b'', ''c'', ''d'', ''e'', ''f''],
             CreateDaisyChainEdges [''a'', ''b'', ''c''],
             CreateDaisyChainEdges [''d'', ''e'', ''f'']] new_DTG)"
    by code_simp
  show "isFullyConnected
       (run [AddVertices [''a'', ''b'', ''c'', ''d'', ''e'', ''f''],
             CreateDaisyChainEdges [''a'', ''b'', ''c''],
             CreateDaisyChainEdges [''d'', ''e'', ''f''],
             CreateEdge ''c'' ''d''] new_DTG)"
    by code_simp
qed

section \<open>Properties of the path enumeration\<close>

subsection \<open>The sort of the paths\<close>

lemma comparePaths_less: "comparePaths p q < 0 \<longleftrightarrow> length p < length q"
  by (simp add: comparePaths_def)

lemma set_insertPath: "set (insertPath p qs) = insert p (set qs)"
  by (induction qs) auto

lemma sorted_insertPath:
  "sorted (map length qs) \<Longrightarrow> sorted (map length (insertPath p qs))"
  by (induction qs) (auto simp: comparePaths_less set_insertPath)

lemma sorted_foldl_insertPath:
  "sorted (map length acc) \<Longrightarrow>
   sorted (map length (foldl (\<lambda>sorted p. insertPath p sorted) acc ps))"
  by (induction ps arbitrary: acc) (auto simp: sorted_insertPath)

lemma sorted_sortPaths: "sorted (map length (sortPaths ps))"
  unfolding sortPaths_def by (rule sorted_foldl_insertPath) simp

lemma getPaths_sorted:
  assumes "getPaths g = Inr ps"
  shows "sorted (map length ps)"
  using assms
  by (auto simp: getPaths_def sorted_sortPaths split: if_splits sum.splits)

subsection \<open>Counting loops\<close>

lemma new_Set_foldl:
  "set (foldl (\<lambda>s x. if x \<in> set s then s else s @ [x]) acc xs) = set acc \<union> set xs"
  "distinct acc \<Longrightarrow> distinct (foldl (\<lambda>s x. if x \<in> set s then s else s @ [x]) acc xs)"
  by (induction xs arbitrary: acc) auto

lemma length_new_Set: "length (new_Set xs) = card (set xs)"
proof -
  have "distinct (new_Set xs)" "set (new_Set xs) = set xs"
    by (simp_all add: new_Set_def new_Set_foldl)
  then show ?thesis by (metis distinct_card)
qed

lemma new_Set_detects_duplicate:
  "length (new_Set xs) \<noteq> length xs \<longleftrightarrow> \<not> distinct xs"
  unfolding length_new_Set using card_distinct distinct_card by metis

lemma count_foldl:
  "foldl (\<lambda>count x. if P x then count + 1 else count) (c::nat) xs = c + length (filter P xs)"
  by (induction xs arbitrary: c) auto

lemma getLoopCount_eq:
  "getLoopCount g =
     (case getPaths g of
        Inl e \<Rightarrow> Inl e
      | Inr ps \<Rightarrow> Inr (length (filter (\<lambda>visitedVertices. \<not> distinct visitedVertices) ps)))"
  by (simp add: getLoopCount_def new_Set_detects_duplicate count_foldl split: sum.splits)

subsection \<open>When the enumeration throws\<close>

lemma well_formed_target:
  assumes "well_formed g" and "map_get g v = Some n" and "w \<in> set (vertexEnds n)"
  shows "\<exists>m. map_get g w = Some m \<and> vertexStart m = w \<and> \<not> isRoot m"
proof -
  from assms obtain m where m: "map_get g w = Some m" "\<not> isRoot m"
    unfolding well_formed_def by blast
  with assms(1) have "vertexStart m = w" unfolding well_formed_def by blast
  with m show ?thesis by blast
qed

lemma isLeafVertex_node:
  "map_get g (vertexStart n) = Some n \<Longrightarrow>
   isLeafVertex g (vertexStart n) \<longleftrightarrow> \<not> isRoot n \<and> vertexEnds n = []"
  by (simp add: isLeafVertex_def hasVertex_iff)

lemma isBranchVertex_node:
  "map_get g (vertexStart n) = Some n \<Longrightarrow>
   isBranchVertex g (vertexStart n) \<longleftrightarrow> \<not> isRoot n \<and> 1 < length (vertexEnds n)"
  by (simp add: isBranchVertex_def hasVertex_iff)

text \<open>From a vertex that is not a root the traversal returns.\<close>

lemma traverse_returns:
  "well_formed g \<Longrightarrow> nopt = Some n \<Longrightarrow> map_get g (vertexStart n) = Some n \<Longrightarrow> \<not> isRoot n \<Longrightarrow>
     \<exists>s'. traverse g nopt r s = Inr s'"
  "well_formed g \<Longrightarrow> map_get g v = Some n \<Longrightarrow> set cs \<subseteq> set (vertexEnds n) \<Longrightarrow>
     \<exists>s'. traverse_forEach g r cs s = Inr s'"
proof (induction g nopt r s and g r cs s arbitrary: n and v n rule: traverse_traverse_forEach.induct)
  case (1 g visitedVertices s)
  then show ?case by simp
next
  case (2 g startingNode visitedVertices s)
  from 2(4) have n: "startingNode = n" by simp
  note node = 2(5) [folded n] and nonroot = 2(6) [folded n]
  show ?case
  proof (cases "isLeafVertex g (vertexStart startingNode)")
    case True
    then show ?thesis by simp
  next
    case leaf: False
    show ?thesis
    proof (cases "isBranchVertex g (vertexStart startingNode)")
      case True
      from 2(1) [OF leaf True 2(3) node] have
        "\<exists>s'. traverse_forEach g visitedVertices (vertexEnds startingNode) s = Inr s'" by simp
      with leaf True show ?thesis by simp
    next
      case branch: False
      from leaf nonroot have "vertexEnds startingNode \<noteq> []"
        by (simp add: isLeafVertex_node [OF node])
      then obtain vertexEnd rest where ends: "vertexEnds startingNode = vertexEnd # rest"
        by (cases "vertexEnds startingNode") auto
      show ?thesis
      proof (cases "vertexEnd \<in> set (arrays s visitedVertices)")
        case True
        with leaf branch ends show ?thesis by simp
      next
        case False
        from well_formed_target [OF 2(3) node, of vertexEnd] ends obtain m where
          m: "map_get g vertexEnd = Some m" "vertexStart m = vertexEnd" "\<not> isRoot m" by auto
        from 2(2) [OF leaf branch ends False 2(3) m(1)] m
        have "\<exists>s'. traverse g (map_get g vertexEnd) visitedVertices
                 (array_push visitedVertices vertexEnd s) = Inr s'" by simp
        with leaf branch ends False show ?thesis by simp
      qed
    qed
  qed
next
  case (3 g visitedVertices s)
  then show ?case by simp
next
  case (4 g visitedVertices vertexEnd rest s)
  from 4(6) have rest: "set rest \<subseteq> set (vertexEnds n)" and here: "vertexEnd \<in> set (vertexEnds n)"
    by simp_all
  show ?case
  proof (cases "vertexEnd \<in> set (arrays s visitedVertices)")
    case True
    from 4(1) [OF True 4(4,5) rest] True show ?thesis by simp
  next
    case False
    obtain copy s1 where new: "array_new (arrays s visitedVertices @ [vertexEnd]) s = (copy, s1)"
      by (cases "array_new (arrays s visitedVertices @ [vertexEnd]) s")
    from well_formed_target [OF 4(4,5) here] obtain m where
      m: "map_get g vertexEnd = Some m" "vertexStart m = vertexEnd" "\<not> isRoot m" by auto
    from 4(2) [OF False new [symmetric] 4(4) m(1)] m obtain s2 where
      t: "traverse g (map_get g vertexEnd) copy s1 = Inr s2" by auto
    from 4(3) [OF False new [symmetric] t 4(4,5) rest] obtain s' where
      "traverse_forEach g visitedVertices rest s2 = Inr s'" by blast
    with False new t show ?thesis by simp
  qed
qed

text \<open>From a root the traversal throws exactly when the root has no outgoing edge.\<close>

lemma traverse_root:
  assumes "well_formed g" and "map_get g v = Some n" and "isRoot n"
  shows "if vertexEnds n = [] then traverse g (Some n) r s = Inl TypeError
         else (\<exists>s'. traverse g (Some n) r s = Inr s')"
proof -
  from assms(1,2) have vs: "vertexStart n = v" unfolding well_formed_def by blast
  with assms(2) have node: "map_get g (vertexStart n) = Some n" by simp
  from assms(3) have leaf: "\<not> isLeafVertex g (vertexStart n)"
    and branch: "\<not> isBranchVertex g (vertexStart n)"
    by (simp_all add: isLeafVertex_node [OF node] isBranchVertex_node [OF node])
  show ?thesis
  proof (cases "vertexEnds n")
    case Nil
    with leaf branch show ?thesis by simp
  next
    case (Cons vertexEnd rest)
    show ?thesis
    proof (cases "vertexEnd \<in> set (arrays s r)")
      case True
      with leaf branch Cons show ?thesis by simp
    next
      case False
      from well_formed_target [OF assms(1,2), of vertexEnd] Cons obtain m where
        m: "map_get g vertexEnd = Some m" "vertexStart m = vertexEnd" "\<not> isRoot m" by auto
      from traverse_returns(1) [OF assms(1) m(1), of r "array_push r vertexEnd s"] m
      have "\<exists>s'. traverse g (map_get g vertexEnd) r (array_push r vertexEnd s) = Inr s'"
        by simp
      with leaf branch Cons False show ?thesis by simp
    qed
  qed
qed

lemma getPaths_forEach_throws_iff:
  assumes "well_formed g" and "\<And>k n. (k, n) \<in> set es \<Longrightarrow> map_get g k = Some n"
  shows "if (\<exists>(k, n) \<in> set es. isRoot n \<and> vertexEnds n = [])
         then getPaths_forEach g es s = Inl TypeError
         else (\<exists>s'. getPaths_forEach g es s = Inr s')"
  using assms(2)
proof (induction es arbitrary: s)
  case Nil
  show ?case by simp
next
  case (Cons e es)
  obtain k n where e: "e = (k, n)" by (cases e)
  from Cons.prems [of k n] e have n: "map_get g k = Some n" by simp
  have IH: "if (\<exists>(k, n) \<in> set es. isRoot n \<and> vertexEnds n = [])
         then getPaths_forEach g es s' = Inl TypeError
         else (\<exists>s''. getPaths_forEach g es s' = Inr s'')" for s'
    by (rule Cons.IH) (simp add: Cons.prems)
  show ?case
  proof (cases "isRoot n")
    case False
    with IH [of s] show ?thesis by (simp add: e)
  next
    case True
    obtain r s1 where new: "array_new [vertexStart n] s = (r, s1)"
      by (cases "array_new [vertexStart n] s")
    show ?thesis
    proof (cases "vertexEnds n = []")
      case True
      with traverse_root [OF assms(1) n \<open>isRoot n\<close>, of r s1]
      have "traverse g (Some n) r s1 = Inl TypeError" by simp
      with \<open>isRoot n\<close> True new show ?thesis by (simp add: e)
    next
      case False
      with traverse_root [OF assms(1) n \<open>isRoot n\<close>, of r s1] obtain s2 where
        t: "traverse g (Some n) r s1 = Inr s2" by auto
      with IH [of s2] \<open>isRoot n\<close> False new show ?thesis by (simp add: e)
    qed
  qed
qed

lemma map_get_entry: "distinct (map fst g) \<Longrightarrow> (k, n) \<in> set g \<Longrightarrow> map_get g k = Some n"
  by (simp add: map_get_def)

lemma getPaths_throws_iff:
  assumes "well_formed g" and "distinct (map fst g)"
  shows "if (\<exists>v n. map_get g v = Some n \<and> isRoot n \<and> vertexEnds n = [])
         then getPaths g = Inl TypeError
         else (\<exists>ps. getPaths g = Inr ps)"
proof (cases "g = []")
  case True
  then show ?thesis by (simp add: getPaths_def map_get_def)
next
  case False
  have iff: "(\<exists>(k, n) \<in> set g. isRoot n \<and> vertexEnds n = [])
      \<longleftrightarrow> (\<exists>v n. map_get g v = Some n \<and> isRoot n \<and> vertexEnds n = [])"
  proof
    assume "\<exists>(k, n) \<in> set g. isRoot n \<and> vertexEnds n = []"
    then obtain k n where "(k, n) \<in> set g" "isRoot n" "vertexEnds n = []" by auto
    with map_get_entry [OF assms(2)] show "\<exists>v n. map_get g v = Some n \<and> isRoot n \<and> vertexEnds n = []"
      by blast
  next
    assume "\<exists>v n. map_get g v = Some n \<and> isRoot n \<and> vertexEnds n = []"
    then obtain v n where "map_get g v = Some n" "isRoot n" "vertexEnds n = []" by blast
    moreover from this have "(v, n) \<in> set g" by (simp add: map_get_def map_of_SomeD)
    ultimately show "\<exists>(k, n) \<in> set g. isRoot n \<and> vertexEnds n = []" by blast
  qed
  note forEach = getPaths_forEach_throws_iff [OF assms(1) map_get_entry [OF assms(2)], of g init_tstate,
      unfolded iff]
  show ?thesis
  proof (cases "\<exists>v n. map_get g v = Some n \<and> isRoot n \<and> vertexEnds n = []")
    case True
    with forEach have "getPaths_forEach g g init_tstate = Inl TypeError" by simp
    with True False show ?thesis by (simp add: getPaths_def)
  next
    case no: False
    with forEach obtain s' where "getPaths_forEach g g init_tstate = Inr s'" by auto
    with no False show ?thesis by (simp add: getPaths_def)
  qed
qed

text \<open>
  The test graph of the repository, and graphs on which the traversal does not follow
  every edge. A root is never a branch, so only its first edge is followed: the chains
  of \<^verbatim>\<open>["aa","ab","cb","cc"]\<close> give the edges \<open>a\<rightarrow>c\<close>, \<open>a\<rightarrow>b\<close>, \<open>b\<rightarrow>c\<close>, and the only
  path found is \<^verbatim>\<open>[a,c]\<close>. A branch pushes a target that closes a loop onto its own
  array, which the copies made for its later targets then contain.
\<close>

lemma getPaths_test_graph:
  "getPaths
     (run [AddVertices [''a'', ''b'', ''c'', ''d'', ''e'', ''f'', ''g'', ''h'', ''i'', ''x'', ''y'', ''z''],
           CreateDaisyChainEdges [''a'', ''b'', ''e'', ''f''],
           CreateEdge ''d'' ''g'', CreateEdge ''d'' ''x'', CreateEdge ''x'' ''y'', CreateEdge ''x'' ''z'',
           CreateDaisyChainEdges [''b'', ''c'', ''d'', ''e''],
           CreateEdge ''f'' ''g'', CreateEdge ''h'' ''i''] new_DTG)
   = Inr [[''h'', ''i''],
          [''a'', ''b'', ''e'', ''f'', ''g''],
          [''a'', ''b'', ''c'', ''d'', ''g''],
          [''a'', ''b'', ''c'', ''d'', ''x'', ''y''],
          [''a'', ''b'', ''c'', ''d'', ''x'', ''z''],
          [''a'', ''b'', ''c'', ''d'', ''e'', ''f'', ''g'']]"
  by code_simp

lemma getPaths_root_with_two_edges:
  "getPaths (run [AddVertices [''r'', ''a'', ''b''], CreateEdge ''r'' ''a'', CreateEdge ''r'' ''b''] new_DTG)
     = Inr [[''r'', ''a'']]"
  by code_simp

lemma getPaths_loop_before_sibling:
  "getPaths (run [AddVertices [''r'', ''a'', ''b'', ''c''], CreateDaisyChainEdges [''r'', ''a'', ''b'', ''a''],
                  CreateEdge ''b'' ''c''] new_DTG)
     = Inr [[''r'', ''a'', ''b'', ''a''], [''r'', ''a'', ''b'', ''a'', ''c'']]"
  by code_simp

lemma extractAlphabetChars_root_with_two_edges:
  "getOrderedCharSet [''aa'', ''ab'', ''cb'', ''cc''] = Some [[''a'', ''c''], [''a'', ''b''], [''b'', ''c'']] \<and>
   extractAlphabetChars [''aa'', ''ab'', ''cb'', ''cc''] = Some (Inr (Array [''a'', ''c'']))"
  by (rule conjI; code_simp)

subsection \<open>The claims about the paths and the orchestrator\<close>

text \<open>
  Claim C9: \<^verbatim>\<open>getLoopCount()\<close> is the number of entries of \<^verbatim>\<open>getPaths()\<close> that contain
  a symbol twice (and throws when \<^verbatim>\<open>getPaths()\<close> throws); on the chain \<open>a\<rightarrow>b\<rightarrow>c\<rightarrow>d\<close> it
  is 0, and 1 after the edge \<open>d\<rightarrow>b\<close> is added.
\<close>

theorem getLoopCount_counts_paths_with_duplicate:
  "getLoopCount g =
     (case getPaths g of
        Inl e \<Rightarrow> Inl e
      | Inr ps \<Rightarrow> Inr (length (filter (\<lambda>visitedVertices. \<not> distinct visitedVertices) ps))) \<and>
   getLoopCount
     (run [AddVertices [''a'', ''b'', ''c'', ''d''],
           CreateDaisyChainEdges [''a'', ''b'', ''c'', ''d'']] new_DTG) = Inr 0 \<and>
   getLoopCount
     (run [AddVertices [''a'', ''b'', ''c'', ''d''],
           CreateDaisyChainEdges [''a'', ''b'', ''c'', ''d''],
           CreateEdge ''d'' ''b''] new_DTG) = Inr 1"
proof (intro conjI)
  show "getLoopCount g =
     (case getPaths g of
        Inl e \<Rightarrow> Inl e
      | Inr ps \<Rightarrow> Inr (length (filter (\<lambda>visitedVertices. \<not> distinct visitedVertices) ps)))"
    by (rule getLoopCount_eq)
  show "getLoopCount
     (run [AddVertices [''a'', ''b'', ''c'', ''d''],
           CreateDaisyChainEdges [''a'', ''b'', ''c'', ''d'']] new_DTG) = Inr 0"
    by code_simp
  show "getLoopCount
     (run [AddVertices [''a'', ''b'', ''c'', ''d''],
           CreateDaisyChainEdges [''a'', ''b'', ''c'', ''d''],
           CreateEdge ''d'' ''b''] new_DTG) = Inr 1"
    by code_simp
qed

text \<open>
  Claim C7 says that \<^verbatim>\<open>getPaths\<close> returns all paths from a root to a terminal vertex,
  sorted by length. The comment of \<^verbatim>\<open>getPaths\<close> in the source gives an example: the
  vertices \<open>a\<close> to \<open>g\<close> with the edges \<open>a\<rightarrow>b\<rightarrow>c\<rightarrow>d\<close> and \<open>c\<rightarrow>f\<rightarrow>g\<close>, where \<open>e\<close> has no edge,
  and the result \<^verbatim>\<open>[[e], [a,b,c,d], [a,b,c,f,g]]\<close>. On this graph the code throws a
  TypeError: the root \<open>e\<close> has no outgoing edge, so it is neither a leaf nor a branch
  for \<^verbatim>\<open>_traverse\<close>, which then reads its first edge. (The test graph of the claim, its
  six paths and the order by length are \<open>getPaths_test_graph\<close> and \<open>getPaths_sorted\<close>
  above.)
\<close>

theorem getPaths_isolated_root_throws:
  "getPaths
     (run [AddVertices [''a'', ''b'', ''c'', ''d'', ''e'', ''f'', ''g''],
           CreateDaisyChainEdges [''a'', ''b'', ''c'', ''d''],
           CreateDaisyChainEdges [''c'', ''f'', ''g'']] new_DTG)
   = Inl TypeError"
  by code_simp

text \<open>
  Claim C1: \<^verbatim>\<open>extractAlphabetChars(["bca","aaa","acb","ddb","dca"])\<close> returns exactly
  \<^verbatim>\<open>[b,a,d,c]\<close>: the unique symbols are \<open>a, b, c, d\<close>, the chains are those of C4, the
  paths of the graph built from them are \<^verbatim>\<open>[b,a,c]\<close> and \<^verbatim>\<open>[b,a,d,c]\<close> in ascending
  length, and the result is the last of them.
\<close>

theorem extractAlphabetChars_example:
  "extractAlphabetChars [''bca'', ''aaa'', ''acb'', ''ddb'', ''dca'']
     = Some (Inr (Array [''b'', ''a'', ''d'', ''c''])) \<and>
   getUniqueCharSet [''bca'', ''aaa'', ''acb'', ''ddb'', ''dca''] = [''a'', ''b'', ''c'', ''d''] \<and>
   getOrderedCharSet [''bca'', ''aaa'', ''acb'', ''ddb'', ''dca'']
     = Some [[''b'', ''a'', ''d''], [''a'', ''c''], [''d'', ''c'']] \<and>
   getPaths (buildGraph [''a'', ''b'', ''c'', ''d''] [[''b'', ''a'', ''d''], [''a'', ''c''], [''d'', ''c'']])
     = Inr [[''b'', ''a'', ''c''], [''b'', ''a'', ''d'', ''c'']] \<and>
   array_pop [[''b'', ''a'', ''c''], [''b'', ''a'', ''d'', ''c'']] = Array [''b'', ''a'', ''d'', ''c'']"
proof (intro conjI)
  show "extractAlphabetChars [''bca'', ''aaa'', ''acb'', ''ddb'', ''dca'']
     = Some (Inr (Array [''b'', ''a'', ''d'', ''c'']))"
    by code_simp
  show "getUniqueCharSet [''bca'', ''aaa'', ''acb'', ''ddb'', ''dca''] = [''a'', ''b'', ''c'', ''d'']"
    by code_simp
  show "getOrderedCharSet [''bca'', ''aaa'', ''acb'', ''ddb'', ''dca'']
     = Some [[''b'', ''a'', ''d''], [''a'', ''c''], [''d'', ''c'']]"
    by code_simp
  show "getPaths (buildGraph [''a'', ''b'', ''c'', ''d''] [[''b'', ''a'', ''d''], [''a'', ''c''], [''d'', ''c'']])
     = Inr [[''b'', ''a'', ''c''], [''b'', ''a'', ''d'', ''c'']]"
    by code_simp
  show "array_pop [[''b'', ''a'', ''c''], [''b'', ''a'', ''d'', ''c'']] = Array [''b'', ''a'', ''d'', ''c'']"
    by (simp add: array_pop_def)
qed

text \<open>
  Claim C2 says that no exception leaves the public functions, in particular that
  \<^verbatim>\<open>extractAlphabetChars\<close> and \<^verbatim>\<open>getPaths\<close> return when the graph has a root without
  outgoing edge, as for the input \<^verbatim>\<open>["ab"]\<close>. On \<^verbatim>\<open>["ab"]\<close> there is no chain, the
  graph has the two vertices \<open>a\<close> and \<open>b\<close> and no edge, and \<^verbatim>\<open>getPaths\<close> throws a
  TypeError that leaves \<^verbatim>\<open>extractAlphabetChars\<close>. On a graph built by the graph
  operations \<^verbatim>\<open>getPaths\<close> throws exactly when some root has no outgoing edge.
\<close>

theorem extractAlphabetChars_isolated_vertex_throws:
  "extractAlphabetChars [''ab''] = Some (Inl TypeError) \<and>
   getPaths (buildGraph (getUniqueCharSet [''ab'']) []) = Inl TypeError \<and>
   (getPaths (run ops new_DTG) = Inl TypeError) =
     (\<exists>v n. map_get (run ops new_DTG) v = Some n \<and> isRoot n \<and> vertexEnds n = [])"
proof (intro conjI)
  show "extractAlphabetChars [''ab''] = Some (Inl TypeError)" by code_simp
  show "getPaths (buildGraph (getUniqueCharSet [''ab'']) []) = Inl TypeError" by code_simp
  have "well_formed (run ops new_DTG)" "distinct (map fst (run ops new_DTG))"
    by (rule well_formed_run [OF well_formed_new], rule distinct_run [OF distinct_new])
  from getPaths_throws_iff [OF this]
  show "(getPaths (run ops new_DTG) = Inl TypeError) =
     (\<exists>v n. map_get (run ops new_DTG) v = Some n \<and> isRoot n \<and> vertexEnds n = [])"
    by (cases "\<exists>v n. map_get (run ops new_DTG) v = Some n \<and> isRoot n \<and> vertexEnds n = []") auto
qed

end
